theory Spec2Isabelle
  imports Main
begin

section \<open>Errors\<close>

text \<open>
  The error values of package \<open>dag\<close>, one constructor per format string.  \<open>'k\<close> is
  \<open>reflect.Type\<close>, the capability key.  The cycle error keeps its whole message,
  which \<open>checkCycles\<close> builds from the labels on the path.
\<close>

datatype 'k dagError =
    DuplicateProvider 'k string string
  | MissingDependency 'k string
  | CyclicDependence string
  | NotAFunction 'k

section \<open>Package dag: nodes and labels\<close>

text \<open>
  A \<open>reflect.Value\<close> of kind \<open>Func\<close>: a Go function, known by its code pointer,
  a variadic Go function, a function made by \<open>reflect.MakeFunc\<close>, known by the
  closure it wraps, or the nil function.  The flag of a variadic function says whether
  \<open>Value.Call\<close> accepts one argument for each declared parameter, the last of them
  of the slice type \<open>[]T\<close>: \<open>Call\<close> takes it for one element of the variadic
  part, so this is the case only when \<open>[]T\<close> is assignable to \<open>T\<close> itself (an
  interface type such as in \<open>...interface{}\<close>).
\<close>

datatype fnval = GoFunc nat | GoVariadic nat bool | MadeFunc nat | NilFunc

text \<open>\<open>dag.Node\<close>.\<close>

record 'k Node =
  Fn :: fnval
  Inputs :: "'k list"
  Outputs :: "'k list"
  ErrorIndices :: "nat list"

text \<open>
  What \<open>runtime.FuncForPC\<close> knows of a code pointer: the function's name and the
  file and line of \<open>f.FileLine(pc)\<close>.  The table belongs to the Go runtime, as does
  the code pointer that \<open>Value.Pointer\<close> reports for every function made by
  \<open>reflect.MakeFunc\<close>; both are a parameter (\<open>rt\<close>) of everything that prints a
  label.
\<close>

record FuncInfo =
  Name :: string
  File :: string
  Line :: nat

record runtime =
  FuncForPC :: "nat \<Rightarrow> FuncInfo option"
  makeFuncStub :: nat

fun Pointer :: "runtime \<Rightarrow> fnval \<Rightarrow> nat" where
  "Pointer rt (GoFunc pc) = pc"
| "Pointer rt (GoVariadic pc ok) = pc"
| "Pointer rt (MadeFunc c) = makeFuncStub rt"
| "Pointer rt NilFunc = 0"

fun hasPrefix :: "string \<Rightarrow> string \<Rightarrow> bool" where
  "hasPrefix s [] = True"
| "hasPrefix [] (c # cs) = False"
| "hasPrefix (x # xs) (c # cs) = (x = c \<and> hasPrefix xs cs)"

fun contains :: "string \<Rightarrow> string \<Rightarrow> bool" where
  "contains [] sub = (sub = [])"
| "contains (x # xs) sub = (hasPrefix (x # xs) sub \<or> contains xs sub)"

text \<open>The \<open>%d\<close> of \<open>fmt.Sprintf\<close>, for a line number.\<close>

definition digit :: "nat \<Rightarrow> char" where
  "digit d = ''0123456789'' ! d"

fun decimal :: "nat \<Rightarrow> string" where
  "decimal n = (if n < 10 then [digit n] else decimal (n div 10) @ [digit (n mod 10)])"

declare decimal.simps [simp del]

definition nodeLabel :: "runtime \<Rightarrow> 'k Node \<Rightarrow> string" where
  "nodeLabel rt n =
     (case FuncForPC rt (Pointer rt (Fn n)) of
        None \<Rightarrow> ''unknown''
      | Some f \<Rightarrow>
          if contains (Name f) ''.func'' then File f @ '':'' @ decimal (Line f)
          else Name f)"

fun join :: "string list \<Rightarrow> string \<Rightarrow> string" where
  "join [] sep = []"
| "join [p] sep = p"
| "join (p # q # ps) sep = p @ sep @ join (q # ps) sep"

section \<open>Package dag: Resolve\<close>

text \<open>
  Nodes are handled through pointers (\<open>*Node\<close>), and every map of the resolver is keyed
  by the pointer.  A pointer is a value of type \<open>'p\<close>; the store \<open>h\<close> gives the node
  it points to.
\<close>

subsection \<open>Step 1: map outputs to producers\<close>

fun addOutputs ::
  "runtime \<Rightarrow> ('p \<Rightarrow> 'k Node) \<Rightarrow> 'p \<Rightarrow> 'k list \<Rightarrow> ('k \<rightharpoonup> 'p)
     \<Rightarrow> 'k dagError + ('k \<rightharpoonup> 'p)" where
  "addOutputs rt h n [] producers = Inr producers"
| "addOutputs rt h n (out # outs) producers =
     (case producers out of
        Some existing \<Rightarrow>
          Inl (DuplicateProvider out (nodeLabel rt (h existing)) (nodeLabel rt (h n)))
      | None \<Rightarrow> addOutputs rt h n outs (producers(out \<mapsto> n)))"

fun mapProducers ::
  "runtime \<Rightarrow> ('p \<Rightarrow> 'k Node) \<Rightarrow> 'p list \<Rightarrow> ('k \<rightharpoonup> 'p)
     \<Rightarrow> 'k dagError + ('k \<rightharpoonup> 'p)" where
  "mapProducers rt h [] producers = Inr producers"
| "mapProducers rt h (n # ns) producers =
     (case addOutputs rt h n (Outputs (h n)) producers of
        Inl e \<Rightarrow> Inl e
      | Inr producers' \<Rightarrow> mapProducers rt h ns producers')"

subsection \<open>Step 2: build the dependency graph\<close>

text \<open>
  \<open>deps\<close> is a \<open>map[*Node][]*Node\<close>; reading a key that was never written gives the
  nil slice, so the map is a total function with \<open>[]\<close> as default.
\<close>

fun addInputs ::
  "runtime \<Rightarrow> ('p \<Rightarrow> 'k Node) \<Rightarrow> ('k \<rightharpoonup> 'p) \<Rightarrow> 'p \<Rightarrow> 'k list
     \<Rightarrow> ('p \<Rightarrow> 'p list) \<Rightarrow> 'k dagError + ('p \<Rightarrow> 'p list)" where
  "addInputs rt h producers n [] deps = Inr deps"
| "addInputs rt h producers n (i # ins) deps =
     (case producers i of
        Some prd \<Rightarrow> addInputs rt h producers n ins (deps(n := deps n @ [prd]))
      | None \<Rightarrow> Inl (MissingDependency i (nodeLabel rt (h n))))"

fun buildDeps ::
  "runtime \<Rightarrow> ('p \<Rightarrow> 'k Node) \<Rightarrow> ('k \<rightharpoonup> 'p) \<Rightarrow> 'p list
     \<Rightarrow> ('p \<Rightarrow> 'p list) \<Rightarrow> 'k dagError + ('p \<Rightarrow> 'p list)" where
  "buildDeps rt h producers [] deps = Inr deps"
| "buildDeps rt h producers (n # ns) deps =
     (case addInputs rt h producers n (Inputs (h n)) deps of
        Inl e \<Rightarrow> Inl e
      | Inr deps' \<Rightarrow> buildDeps rt h producers ns deps')"

subsection \<open>Loops whose body may fail or may not return\<close>

text \<open>
  The two depth-first passes are recursive closures.  A call that does not return is the
  value \<open>None\<close>; \<open>Some (Inl e)\<close> is the early \<open>return err\<close>, \<open>Some (Inr s)\<close> the
  state after normal completion.
\<close>

definition onOk ::
  "('e + 's) option \<Rightarrow> ('s \<Rightarrow> ('e + 't) option) \<Rightarrow> ('e + 't) option" where
  "onOk r k = (case r of None \<Rightarrow> None | Some (Inl e) \<Rightarrow> Some (Inl e) | Some (Inr s) \<Rightarrow> k s)"

fun forEach ::
  "('a \<Rightarrow> 's \<Rightarrow> ('e + 's) option) \<Rightarrow> 'a list \<Rightarrow> 's \<Rightarrow> ('e + 's) option" where
  "forEach f [] s = Some (Inr s)"
| "forEach f (x # xs) s = onOk (f x s) (forEach f xs)"

fun forEachV :: "('a \<Rightarrow> 's \<Rightarrow> 's option) \<Rightarrow> 'a list \<Rightarrow> 's \<Rightarrow> 's option" where
  "forEachV f [] s = Some s"
| "forEachV f (x # xs) s = Option.bind (f x s) (forEachV f xs)"

lemma onOk_mono [partial_function_mono]:
  fixes B :: "('x \<Rightarrow> 'y option) \<Rightarrow> ('e + 's) option"
    and C :: "('x \<Rightarrow> 'y option) \<Rightarrow> 's \<Rightarrow> ('e + 't) option"
  assumes "mono_option B" and "\<And>y. mono_option (\<lambda>f. C f y)"
  shows "mono_option (\<lambda>f. onOk (B f) (C f))"
proof -
  have eq: "\<And>f. onOk (B f) (C f) =
     Option.bind (B f) (\<lambda>r. case r of Inl e \<Rightarrow> Some (Inl e) | Inr s' \<Rightarrow> C f s')"
    by (auto simp: onOk_def split: option.splits sum.splits)
  show ?thesis unfolding eq
  proof (rule bind_mono[OF assms(1)])
    fix r :: "'e + 's"
    show "mono_option (\<lambda>f. case r of Inl e \<Rightarrow> Some (Inl e) | Inr s' \<Rightarrow> C f s')"
      by (cases r) (simp_all add: option.const_mono assms(2))
  qed
qed

lemma forEach_mono [partial_function_mono]:
  fixes F :: "('x \<Rightarrow> 'y option) \<Rightarrow> 'a \<Rightarrow> 's \<Rightarrow> ('e + 's) option"
  assumes "\<And>x s. mono_option (\<lambda>f. F f x s)"
  shows "mono_option (\<lambda>f. forEach (F f) xs s)"
proof (induction xs arbitrary: s)
  case Nil
  show ?case by (simp add: option.const_mono)
next
  case (Cons x xs)
  show ?case by (simp, rule onOk_mono) (rule assms, rule Cons.IH)
qed

lemma forEachV_mono [partial_function_mono]:
  fixes F :: "('x \<Rightarrow> 'y option) \<Rightarrow> 'a \<Rightarrow> 's \<Rightarrow> 's option"
  assumes "\<And>x s. mono_option (\<lambda>f. F f x s)"
  shows "mono_option (\<lambda>f. forEachV (F f) xs s)"
proof (induction xs arbitrary: s)
  case Nil
  show ?case by (simp add: option.const_mono)
next
  case (Cons x xs)
  show ?case by (simp, rule bind_mono) (rule assms, rule Cons.IH)
qed

subsection \<open>Step 3a: checkCycles\<close>

record 'p cstate =
  visited :: "'p set"
  inStack :: "'p \<rightharpoonup> nat"
  stack :: "'p list"

definition cycleError ::
  "runtime \<Rightarrow> ('p \<Rightarrow> 'k Node) \<Rightarrow> 'p list \<Rightarrow> 'k dagError" where
  "cycleError rt h cycleNodes =
     CyclicDependence (''cyclic dependence: '' @ join (map (\<lambda>p. nodeLabel rt (h p)) cycleNodes) '' -> '')"

partial_function (option) cvisit ::
  "runtime \<Rightarrow> ('p \<Rightarrow> 'k Node) \<Rightarrow> ('p \<Rightarrow> 'p list) \<Rightarrow> 'p \<Rightarrow> 'p cstate
     \<Rightarrow> ('k dagError + 'p cstate) option" where
  "cvisit rt h deps n st =
     (case inStack st n of
        Some idx \<Rightarrow> Some (Inl (cycleError rt h (drop idx (stack st) @ [n])))
      | None \<Rightarrow>
          if n \<in> visited st then Some (Inr st)
          else
            onOk (forEach (cvisit rt h deps) (deps n)
                    (st\<lparr>inStack := (inStack st)(n \<mapsto> length (stack st)),
                        stack := stack st @ [n]\<rparr>))
              (\<lambda>st'. Some (Inr (st'\<lparr>stack := butlast (stack st'),
                                    inStack := (inStack st')(n := None),
                                    visited := insert n (visited st')\<rparr>))))"

definition checkCycles ::
  "runtime \<Rightarrow> ('p \<Rightarrow> 'k Node) \<Rightarrow> 'p list \<Rightarrow> ('p \<Rightarrow> 'p list)
     \<Rightarrow> ('k dagError + 'p cstate) option" where
  "checkCycles rt h nodes deps =
     forEach (\<lambda>n st. if n \<notin> visited st then cvisit rt h deps n st else Some (Inr st))
       nodes \<lparr>visited = {}, inStack = Map.empty, stack = []\<rparr>"

subsection \<open>Step 3b: topologicalSort\<close>

record 'p tstate =
  tvisited :: "'p set"
  sorted' :: "'p list"

partial_function (option) tvisit ::
  "('p \<Rightarrow> 'p list) \<Rightarrow> 'p \<Rightarrow> 'p tstate \<Rightarrow> 'p tstate option" where
  "tvisit deps n st =
     (if n \<in> tvisited st then Some st
      else
        Option.bind (forEachV (tvisit deps) (deps n) st)
          (\<lambda>st'. Some (st'\<lparr>tvisited := insert n (tvisited st'), sorted' := sorted' st' @ [n]\<rparr>)))"

definition topologicalSort ::
  "runtime \<Rightarrow> ('p \<Rightarrow> 'k Node) \<Rightarrow> 'p list \<Rightarrow> ('p \<Rightarrow> 'p list)
     \<Rightarrow> ('k dagError + 'p list) option" where
  "topologicalSort rt h nodes deps =
     onOk (checkCycles rt h nodes deps)
       (\<lambda>_. map_option (\<lambda>st. Inr (sorted' st))
              (forEachV (\<lambda>n st. if n \<notin> tvisited st then tvisit deps n st else Some st)
                 nodes \<lparr>tvisited = {}, sorted' = []\<rparr>))"

definition Resolve ::
  "runtime \<Rightarrow> ('p \<Rightarrow> 'k Node) \<Rightarrow> 'p list
     \<Rightarrow> ('k dagError + 'p list) option" where
  "Resolve rt h nodes =
     (case mapProducers rt h nodes Map.empty of
        Inl e \<Rightarrow> Some (Inl e)
      | Inr producers \<Rightarrow>
          (case buildDeps rt h producers nodes (\<lambda>_. []) of
             Inl e \<Rightarrow> Some (Inl e)
           | Inr deps \<Rightarrow> topologicalSort rt h nodes deps))"

section \<open>Package dag: NewNode\<close>

text \<open>
  \<open>reflect.Type\<close>, as far as the two packages look into it: the kind, the element of a
  pointer, the fields of a struct (\<open>PkgPath\<close>, \<open>Anonymous\<close>, \<open>Type\<close>), the parameters
  and results of a function, and whether the method set implements \<open>error\<close>.
\<close>

datatype kind = KFunc | KPtr | KStruct | KInterface | KChan | KMap | KSlice | KOther

datatype rtype =
    Named string kind bool
  | PtrTo rtype bool
  | StructT string "(string \<times> bool \<times> rtype) list" bool
  | FuncT "rtype list" "rtype list"

fun Kind :: "rtype \<Rightarrow> kind" where
  "Kind (Named nm k e) = k"
| "Kind (PtrTo t e) = KPtr"
| "Kind (StructT nm fs e) = KStruct"
| "Kind (FuncT ins outs) = KFunc"

fun ImplementsError :: "rtype \<Rightarrow> bool" where
  "ImplementsError (Named nm k e) = e"
| "ImplementsError (PtrTo t e) = e"
| "ImplementsError (StructT nm fs e) = e"
| "ImplementsError (FuncT ins outs) = False"

fun Elem :: "rtype \<Rightarrow> rtype" where
  "Elem (PtrTo t e) = t"
| "Elem t = t"

fun Fields :: "rtype \<Rightarrow> (string \<times> bool \<times> rtype) list" where
  "Fields (StructT nm fs e) = fs"
| "Fields t = []"

fun In :: "rtype \<Rightarrow> rtype list" where
  "In (FuncT ins outs) = ins"
| "In t = []"

fun Out :: "rtype \<Rightarrow> rtype list" where
  "Out (FuncT ins outs) = outs"
| "Out t = []"

text \<open>
  \<open>NewNode\<close> is given the function value and its type.  The two loops over the results
  keep the non-error types in order and the positions of the error types.
\<close>

definition NewNode :: "fnval \<Rightarrow> rtype \<Rightarrow> rtype dagError + rtype Node" where
  "NewNode val typ =
     (if Kind typ \<noteq> KFunc then Inl (NotAFunction typ)
      else Inr \<lparr>Fn = val,
                Inputs = In typ,
                Outputs = filter (\<lambda>t. \<not> ImplementsError t) (Out typ),
                ErrorIndices = filter (\<lambda>i. ImplementsError (Out typ ! i)) [0..<length (Out typ)]\<rparr>)"

section \<open>Package bootstrap\<close>

text \<open>
  The errors of package \<open>bootstrap\<close>; \<open>'e\<close> is the type of the error values that
  constructors and release actions hand back.  An error of \<open>dag.Resolve\<close> is passed
  on as it is (\<open>DagError\<close>).  \<open>RuntimePanic\<close> is not a returned error: it marks a
  Go panic, which unwinds through the caller.
\<close>

datatype 'e error =
    DagError "rtype dagError"
  | ArgumentNil
  | ArgumentNotFuncOrPtr
  | ProhibitedInject string rtype
  | InternalMissingValue rtype
  | ConstructorError 'e
  | CleanupErrors "'e list"
  | RuntimePanic string

text \<open>
  A \<open>reflect.Value\<close> that a constructor returned: what \<open>execute\<close> reads of it.
  \<open>vError\<close> is the result of \<open>Interface().(error)\<close>, \<open>vCleanable\<close> says that the
  dynamic type has the \<open>Cleanup() error\<close> method of \<open>Cleanable\<close>.
\<close>

record 'e val =
  vIsValid :: bool
  vKind :: kind
  vIsNil :: bool
  vCleanable :: bool
  vError :: 'e
  vData :: nat

text \<open>
  An argument of \<open>Add\<close>, an \<open>interface{}\<close>: the nil interface, or a value with its
  type, the function it is when the kind is \<open>Func\<close>, whether it is a nil pointer, and the
  address it holds when the kind is \<open>Ptr\<close>.
\<close>

datatype goValue = NilInterface | Value rtype fnval bool nat

text \<open>
  The \<open>Bootstrap\<close> struct.  The elements of \<open>providers\<close> are pointers to nodes that
  \<open>NewNode\<close> has just allocated, each appended once, so a pointer is identified with its
  position in the slice.  A cleanup is the method value \<open>cleanable.Cleanup\<close>, kept as
  its receiver.  The field \<open>values\<close> is \<open>vals\<close> here and \<open>functions\<close> is
  \<open>functions'\<close> (both names are taken in Isabelle).  The context and the mutex are
  left out; what \<open>cancel\<close> does is a flag of the world below.
\<close>

record 'e Bootstrap =
  providers :: "rtype Node list"
  vals :: "rtype \<rightharpoonup> 'e val"
  cleanups :: "'e val list"
  functions' :: "nat \<Rightarrow> bool"
  err :: "'e error option"

text \<open>
  Everything outside the container: the state \<open>ext\<close> that constructors and release
  actions read and change, the log of the callables invoked, the log of the release
  actions invoked with what each returned, and whether the context was cancelled.
  What a callable or a release action does is given by \<open>env\<close>.
\<close>

record ('e, 'w) world =
  ext :: 'w
  invoked :: "fnval list"
  released :: "('e val \<times> 'e option) list"
  cancelled :: bool

record ('e, 'w) env =
  Call :: "fnval \<Rightarrow> 'e val list \<Rightarrow> 'w \<Rightarrow> 'e val list \<times> 'w"
  CallCleanup :: "'e val \<Rightarrow> 'w \<Rightarrow> 'e option \<times> 'w"

subsection \<open>Registration\<close>

definition hasInject :: "rtype \<Rightarrow> rtype \<Rightarrow> bool" where
  "hasInject injectType typ =
     list_ex (\<lambda>(pkgPath, anonymous, ftype). anonymous \<and> ftype = injectType) (Fields typ)"

fun checkInjectInTypes :: "rtype \<Rightarrow> rtype list \<Rightarrow> string \<Rightarrow> 'e error option" where
  "checkInjectInTypes injectType [] kindStr = None"
| "checkInjectInTypes injectType (t # ts) kindStr =
     (let checkType = (if Kind t = KPtr then Elem t else t)
      in if Kind checkType = KStruct \<and> hasInject injectType checkType
         then Some (ProhibitedInject kindStr t)
         else checkInjectInTypes injectType ts kindStr)"

definition registerProvider ::
  "runtime \<Rightarrow> rtype \<Rightarrow> 'e Bootstrap \<Rightarrow> fnval \<Rightarrow> rtype \<Rightarrow> 'e error option \<times> 'e Bootstrap" where
  "registerProvider rt injectType b val typ =
     (case checkInjectInTypes injectType (In typ) ''input'' of
        Some e \<Rightarrow> (Some e, b)
      | None \<Rightarrow>
     (case checkInjectInTypes injectType (Out typ) ''output'' of
        Some e \<Rightarrow> (Some e, b)
      | None \<Rightarrow>
          let ptr = Pointer rt val
          in if functions' b ptr then (None, b)
             else
               let b1 = b\<lparr>functions' := (functions' b)(ptr := True)\<rparr>
               in case NewNode val typ of
                    Inl e \<Rightarrow> (Some (DagError e), b1)
                  | Inr p \<Rightarrow> (None, b1\<lparr>providers := providers b1 @ [p]\<rparr>)))"

definition registerTargetPopulator ::
  "'e Bootstrap \<Rightarrow> rtype \<Rightarrow> nat \<Rightarrow> 'e error option \<times> 'e Bootstrap" where
  "registerTargetPopulator b ptrType addr =
     (let targetType = Elem ptrType;
          fnType = FuncT [targetType] []
      in case NewNode (MadeFunc addr) fnType of
           Inl e \<Rightarrow> (Some (DagError e), b)
         | Inr p \<Rightarrow> (None, b\<lparr>providers := providers b @ [p]\<rparr>))"

definition registerStructInjector ::
  "rtype \<Rightarrow> 'e Bootstrap \<Rightarrow> rtype \<Rightarrow> nat \<Rightarrow> 'e error option \<times> 'e Bootstrap" where
  "registerStructInjector injectType b ptrType addr =
     (let structType = Elem ptrType;
          fieldTypes = map (\<lambda>(pkgPath, anonymous, ftype). ftype)
                         (filter (\<lambda>(pkgPath, anonymous, ftype). pkgPath = [] \<and> ftype \<noteq> injectType)
                            (Fields structType));
          fnType = FuncT fieldTypes []
      in case NewNode (MadeFunc addr) fnType of
           Inl e \<Rightarrow> (Some (DagError e), b)
         | Inr p \<Rightarrow> (None, b\<lparr>providers := providers b @ [p]\<rparr>))"

fun add :: "runtime \<Rightarrow> rtype \<Rightarrow> 'e Bootstrap \<Rightarrow> goValue \<Rightarrow> 'e error option \<times> 'e Bootstrap" where
  "add rt injectType b NilInterface = (Some (RuntimePanic ''reflect: call of Type on zero Value''), b)"
| "add rt injectType b (Value typ fnv isNil addr) =
     (if Kind typ = KFunc then registerProvider rt injectType b fnv typ
      else if Kind typ = KPtr then
        (if isNil then (Some ArgumentNil, b)
         else
           let elemType = Elem typ
           in if Kind elemType = KStruct \<and> hasInject injectType elemType
              then registerStructInjector injectType b typ addr
              else registerTargetPopulator b typ addr)
      else (Some ArgumentNotFuncOrPtr, b))"

text \<open>
  \<open>Add\<close> has no error to return.  A panic inside \<open>add\<close> unwinds through it
  (\<open>Inl\<close>, with the message); an error is stored in \<open>err\<close> and ends the loop.
\<close>

fun addEach :: "runtime \<Rightarrow> rtype \<Rightarrow> 'e Bootstrap \<Rightarrow> goValue list \<Rightarrow> string + 'e Bootstrap" where
  "addEach rt injectType b [] = Inr b"
| "addEach rt injectType b (c # cs) =
     (case add rt injectType b c of
        (Some (RuntimePanic msg), b') \<Rightarrow> Inl msg
      | (Some e, b') \<Rightarrow> Inr (b'\<lparr>err := Some e\<rparr>)
      | (None, b') \<Rightarrow> addEach rt injectType b' cs)"

definition Add :: "runtime \<Rightarrow> rtype \<Rightarrow> 'e Bootstrap \<Rightarrow> goValue list \<Rightarrow> string + 'e Bootstrap" where
  "Add rt injectType b constructors =
     (if err b \<noteq> None then Inr b else addEach rt injectType b constructors)"

subsection \<open>Execution\<close>

text \<open>The argument loop of \<open>execute\<close>: the first input without a cached value ends it.\<close>

fun gatherArgs :: "(rtype \<rightharpoonup> 'e val) \<Rightarrow> rtype list \<Rightarrow> 'e error + 'e val list" where
  "gatherArgs values [] = Inr []"
| "gatherArgs values (i # ins) =
     (case values i of
        None \<Rightarrow> Inl (InternalMissingValue i)
      | Some v \<Rightarrow>
          (case gatherArgs values ins of
             Inl e \<Rightarrow> Inl e
           | Inr args \<Rightarrow> Inr (v # args)))"

text \<open>
  \<open>Value.IsNil\<close> panics on a value whose kind cannot be nil; \<open>results[idx]\<close> panics
  past the end of the slice.
\<close>

definition nillable :: "kind \<Rightarrow> bool" where
  "nillable k \<longleftrightarrow> k \<in> {KChan, KFunc, KInterface, KMap, KPtr, KSlice}"

fun checkErrorReturns :: "'e val list \<Rightarrow> nat list \<Rightarrow> 'e error option" where
  "checkErrorReturns results [] = None"
| "checkErrorReturns results (idx # idxs) =
     (if length results \<le> idx then Some (RuntimePanic ''index out of range'')
      else
        let errVal = results ! idx
        in if \<not> nillable (vKind errVal) then Some (RuntimePanic ''reflect: call of IsNil'')
           else if \<not> vIsNil errVal then Some (ConstructorError (vError errVal))
           else checkErrorReturns results idxs)"

text \<open>
  The storing loop, with its two counters: \<open>i\<close> runs over all results, \<open>outputIdx\<close>
  over the declared outputs.
\<close>

fun storeResults ::
  "rtype Node \<Rightarrow> nat \<Rightarrow> nat \<Rightarrow> 'e val list \<Rightarrow> 'e Bootstrap \<Rightarrow> 'e Bootstrap" where
  "storeResults p i outputIdx [] b = b"
| "storeResults p i outputIdx (res # rest) b =
     (if i \<in> set (ErrorIndices p) then storeResults p (i + 1) outputIdx rest b
      else if outputIdx < length (Outputs p) then
        let outType = Outputs p ! outputIdx;
            b1 = b\<lparr>vals := (vals b)(outType \<mapsto> res)\<rparr>;
            isNil = (nillable (vKind res) \<and> vIsNil res);
            b2 = (if vIsValid res \<and> \<not> isNil \<and> vCleanable res
                  then b1\<lparr>cleanups := cleanups b1 @ [res]\<rparr> else b1)
        in storeResults p (i + 1) (outputIdx + 1) rest b2
      else storeResults p (i + 1) outputIdx rest b)"

text \<open>
  \<open>p.Fn.Call(args)\<close>.  \<open>Value.Call\<close> panics before the callable runs when the
  function is nil, and when the function is variadic and the argument found for the slice
  parameter is not assignable to the element type.  Otherwise the callable runs (\<open>Call
  env\<close>).
\<close>

definition FnCall ::
  "('e, 'w) env \<Rightarrow> fnval \<Rightarrow> 'e val list \<Rightarrow> 'w \<Rightarrow> string + ('e val list \<times> 'w)" where
  "FnCall env fn args x =
     (case fn of
        NilFunc \<Rightarrow> Inl ''reflect.Value.Call: call of nil function''
      | GoVariadic pc ok \<Rightarrow>
          if ok then Inr (Call env fn args x)
          else Inl ''reflect: cannot use slice as element type in Call''
      | _ \<Rightarrow> Inr (Call env fn args x))"

definition execute ::
  "('e, 'w) env \<Rightarrow> rtype Node \<Rightarrow> 'e Bootstrap \<times> ('e, 'w) world
     \<Rightarrow> 'e error option \<times> 'e Bootstrap \<times> ('e, 'w) world" where
  "execute env p bw =
     (let (b, w) = bw
      in case gatherArgs (vals b) (Inputs p) of
           Inl e \<Rightarrow> (Some e, b, w)
         | Inr args \<Rightarrow>
             (case FnCall env (Fn p) args (ext w) of
                Inl msg \<Rightarrow> (Some (RuntimePanic msg), b, w)
              | Inr (results, x) \<Rightarrow>
                  let w1 = w\<lparr>ext := x, invoked := invoked w @ [Fn p]\<rparr>
                  in case checkErrorReturns results (ErrorIndices p) of
                       Some e \<Rightarrow> (Some e, b, w1)
                     | None \<Rightarrow> (None, storeResults p 0 0 results b, w1)))"

fun executeAll ::
  "('e, 'w) env \<Rightarrow> rtype Node list \<Rightarrow> 'e Bootstrap \<times> ('e, 'w) world
     \<Rightarrow> 'e error option \<times> 'e Bootstrap \<times> ('e, 'w) world" where
  "executeAll env [] bw = (None, bw)"
| "executeAll env (p # ps) bw =
     (case execute env p bw of
        (Some e, bw') \<Rightarrow> (Some e, bw')
      | (None, bw') \<Rightarrow> executeAll env ps bw')"

text \<open>
  \<open>Run\<close>.  \<open>None\<close> is a call that does not return; the first component of the result
  is the error returned (\<open>None\<close> for \<open>nil\<close>).
\<close>

definition Run ::
  "runtime \<Rightarrow> ('e, 'w) env \<Rightarrow> 'e Bootstrap \<times> ('e, 'w) world
     \<Rightarrow> ('e error option \<times> 'e Bootstrap \<times> ('e, 'w) world) option" where
  "Run rt env bw =
     (let (b, w) = bw
      in case err b of
           Some e \<Rightarrow> Some (Some e, b, w)
         | None \<Rightarrow>
             (case Resolve rt (\<lambda>i. providers b ! i) [0..<length (providers b)] of
                None \<Rightarrow> None
              | Some (Inl e) \<Rightarrow> Some (Some (DagError e), b, w)
              | Some (Inr order) \<Rightarrow>
                  Some (executeAll env (map (\<lambda>i. providers b ! i) order) (b, w))))"

subsection \<open>Cleanup\<close>

fun runCleanups ::
  "('e, 'w) env \<Rightarrow> 'e val list \<Rightarrow> 'e list \<Rightarrow> ('e, 'w) world \<Rightarrow> 'e list \<times> ('e, 'w) world" where
  "runCleanups env [] errs w = (errs, w)"
| "runCleanups env (c # cs) errs w =
     (let (r, x) = CallCleanup env c (ext w);
          w1 = w\<lparr>ext := x, released := released w @ [(c, r)]\<rparr>
      in runCleanups env cs (case r of None \<Rightarrow> errs | Some e \<Rightarrow> errs @ [e]) w1)"

text \<open>The loop counts \<open>i\<close> down from the last cleanup: it walks the reversed slice.\<close>

definition Cleanup ::
  "('e, 'w) env \<Rightarrow> 'e Bootstrap \<times> ('e, 'w) world
     \<Rightarrow> 'e error option \<times> 'e Bootstrap \<times> ('e, 'w) world" where
  "Cleanup env bw =
     (let (b, w) = bw;
          (errs, w1) = runCleanups env (rev (cleanups b)) [] (w\<lparr>cancelled := True\<rparr>)
      in (if 0 < length errs then Some (CleanupErrors errs) else None, b, w1))"

section \<open>The cycle check returns, and finds every cycle\<close>

definition edges :: "('p \<Rightarrow> 'p list) \<Rightarrow> ('p \<times> 'p) set" where
  "edges deps = {(a, b). b \<in> set (deps a)}"

definition isCycle :: "('p \<Rightarrow> 'p list) \<Rightarrow> 'p list \<Rightarrow> bool" where
  "isCycle deps c \<longleftrightarrow>
     2 \<le> length c \<and> hd c = last c \<and> successively (\<lambda>a b. b \<in> set (deps a)) c"

definition cinv :: "'p set \<Rightarrow> ('p \<Rightarrow> 'p list) \<Rightarrow> 'p cstate \<Rightarrow> bool" where
  "cinv U deps st \<longleftrightarrow>
     distinct (stack st) \<and> set (stack st) \<subseteq> U \<and> visited st \<subseteq> U
     \<and> (\<forall>n i. inStack st n = Some i \<longleftrightarrow> i < length (stack st) \<and> stack st ! i = n)
     \<and> successively (\<lambda>a b. b \<in> set (deps a)) (stack st)
     \<and> (\<forall>v\<in>visited st. set (deps v) \<subseteq> visited st)
     \<and> visited st \<inter> set (stack st) = {}
     \<and> (\<forall>v\<in>visited st. (v, v) \<notin> (edges deps)\<^sup>+)"

definition cpost ::
  "runtime \<Rightarrow> ('p \<Rightarrow> 'k Node) \<Rightarrow> 'p set \<Rightarrow> ('p \<Rightarrow> 'p list) \<Rightarrow> 'p set \<Rightarrow> 'p cstate
     \<Rightarrow> ('k dagError + 'p cstate) \<Rightarrow> bool" where
  "cpost rt h U deps N st r =
     (case r of
        Inr st' \<Rightarrow> cinv U deps st' \<and> stack st' = stack st \<and> inStack st' = inStack st
                   \<and> visited st \<subseteq> visited st' \<and> N \<subseteq> visited st'
      | Inl e \<Rightarrow> \<exists>c. e = cycleError rt h c \<and> isCycle deps c \<and> set c \<subseteq> U)"

definition push :: "'p \<Rightarrow> 'p cstate \<Rightarrow> 'p cstate" where
  "push n st = st\<lparr>inStack := (inStack st)(n \<mapsto> length (stack st)), stack := stack st @ [n]\<rparr>"

definition pop :: "'p \<Rightarrow> 'p cstate \<Rightarrow> 'p cstate" where
  "pop n st' = st'\<lparr>stack := butlast (stack st'), inStack := (inStack st')(n := None),
                   visited := insert n (visited st')\<rparr>"

lemma cinv_notin_stack: "cinv U deps st \<Longrightarrow> inStack st n = None \<Longrightarrow> n \<notin> set (stack st)"
  by (metis cinv_def in_set_conv_nth option.distinct(1))

lemma push_inv:
  assumes "cinv U deps st" "n \<in> U" "n \<notin> visited st" "inStack st n = None"
    and "stack st = [] \<or> n \<in> set (deps (last (stack st)))"
  shows "cinv U deps (push n st)"
proof -
  have ns: "n \<notin> set (stack st)" using assms cinv_notin_stack by metis
  have idx: "\<And>m i. inStack st m = Some i \<longleftrightarrow> i < length (stack st) \<and> stack st ! i = m"
    using assms(1) by (simp add: cinv_def)
  have "\<forall>m i. ((inStack st)(n \<mapsto> length (stack st))) m = Some i
          \<longleftrightarrow> i < length (stack st @ [n]) \<and> (stack st @ [n]) ! i = m"
  proof (intro allI)
    fix m i
    show "((inStack st)(n \<mapsto> length (stack st))) m = Some i
          \<longleftrightarrow> i < length (stack st @ [n]) \<and> (stack st @ [n]) ! i = m"
      using ns idx[of m i] by (auto simp: nth_append less_Suc_eq)
  qed
  moreover have "successively (\<lambda>a b. b \<in> set (deps a)) (stack st @ [n])"
    using assms(1,5) by (auto simp: cinv_def successively_append_iff)
  ultimately show ?thesis
    using assms ns unfolding cinv_def push_def by simp
qed

lemma closed_trancl:
  assumes "\<forall>v\<in>S. set (deps v) \<subseteq> S" "(a, b) \<in> (edges deps)\<^sup>*" "a \<in> S"
  shows "b \<in> S"
  using assms(2,3,1) by (induction rule: rtrancl_induct) (auto simp: edges_def)

lemma pop_inv:
  assumes "cinv U deps st'" "stack st' = stack st @ [n]"
    and "inStack st' = (inStack st)(n \<mapsto> length (stack st))" "inStack st n = None"
    and "set (deps n) \<subseteq> visited st'" "n \<in> U"
  shows "cinv U deps (pop n st')" "stack (pop n st') = stack st" "inStack (pop n st') = inStack st"
proof -
  have d: "distinct (stack st @ [n])" using assms(1,2) by (simp add: cinv_def)
  have nv: "n \<notin> visited st'" using assms(1,2) by (auto simp: cinv_def)
  have idx: "\<And>m i. inStack st' m = Some i \<longleftrightarrow> i < length (stack st') \<and> stack st' ! i = m"
    using assms(1) by (simp add: cinv_def)
  show s: "stack (pop n st') = stack st" using assms(2) by (simp add: pop_def)
  show i: "inStack (pop n st') = inStack st" using assms(3,4) by (auto simp: pop_def)
  have ix: "\<forall>m i. inStack st m = Some i \<longleftrightarrow> i < length (stack st) \<and> stack st ! i = m"
  proof (intro allI)
    fix m i
    show "inStack st m = Some i \<longleftrightarrow> i < length (stack st) \<and> stack st ! i = m"
    proof (cases "m = n")
      case True
      then show ?thesis using d assms(4) by (auto simp: in_set_conv_nth)
    next
      case False
      then have "inStack st m = inStack st' m" using assms(3) by simp
      then show ?thesis using idx[of m i] assms(2) False
        by (auto simp: nth_append less_Suc_eq)
    qed
  qed
  have cl: "\<forall>v\<in>insert n (visited st'). set (deps v) \<subseteq> insert n (visited st')"
    using assms(1,5) by (auto simp: cinv_def)
  have ac: "\<forall>v\<in>insert n (visited st'). (v, v) \<notin> (edges deps)\<^sup>+"
  proof
    fix v assume v: "v \<in> insert n (visited st')"
    show "(v, v) \<notin> (edges deps)\<^sup>+"
    proof (cases "v = n")
      case False
      then show ?thesis using v assms(1) by (auto simp: cinv_def)
    next
      case True
      show ?thesis
      proof
        assume "(v, v) \<in> (edges deps)\<^sup>+"
        then obtain m where m: "(n, m) \<in> edges deps" "(m, n) \<in> (edges deps)\<^sup>*"
          using True by (metis tranclD)
        have "m \<in> visited st'" using m(1) assms(5) by (auto simp: edges_def)
        moreover have "\<forall>v\<in>visited st'. set (deps v) \<subseteq> visited st'"
          using assms(1) by (simp add: cinv_def)
        ultimately have "n \<in> visited st'" using closed_trancl[OF _ m(2)] by blast
        then show False using nv by simp
      qed
    qed
  qed
  have "successively (\<lambda>a b. b \<in> set (deps a)) (stack st)"
    using assms(1,2) by (auto simp: cinv_def successively_append_iff)
  moreover have "set (stack st) \<subseteq> U" "visited st' \<subseteq> U"
    "visited st' \<inter> set (stack st) = {}"
    using assms(1,2) by (auto simp: cinv_def)
  ultimately show "cinv U deps (pop n st')"
    unfolding cinv_def using d ix cl ac assms(6) nv
    by (simp add: s i) (simp add: pop_def)
qed

lemma cvisit_unfold:
  "cvisit rt h deps n st =
     (case inStack st n of
        Some idx \<Rightarrow> Some (Inl (cycleError rt h (drop idx (stack st) @ [n])))
      | None \<Rightarrow>
          if n \<in> visited st then Some (Inr st)
          else onOk (forEach (cvisit rt h deps) (deps n) (push n st))
                 (\<lambda>st'. Some (Inr (pop n st'))))"
  by (subst cvisit.simps) (simp add: push_def pop_def split: option.split)

lemma meas_mono:
  assumes "finite U" "visited st \<subseteq> visited st'" "stack st' = stack st"
  shows "card (U - visited st' - set (stack st')) \<le> card (U - visited st - set (stack st))"
  by (rule card_mono) (use assms in auto)

lemma cloop:
  fixes rt :: runtime and h :: "'p \<Rightarrow> 'k Node"
  assumes fin: "finite U"
    and IH: "\<And>m s. card (U - visited s - set (stack s)) < M \<Longrightarrow> cinv U deps s \<Longrightarrow> m \<in> U
              \<Longrightarrow> stack s = [] \<or> m \<in> set (deps (last (stack s)))
              \<Longrightarrow> \<exists>r. cvisit rt h deps m s = Some (r :: 'k dagError + 'p cstate)
                       \<and> cpost rt h U deps {m} s r"
  shows "cinv U deps st \<Longrightarrow> card (U - visited st - set (stack st)) < M
         \<Longrightarrow> set ms \<subseteq> set (deps (last (stack st))) \<Longrightarrow> set ms \<subseteq> U
         \<Longrightarrow> \<exists>r. forEach (cvisit rt h deps) ms st = Some (r :: 'k dagError + 'p cstate)
                  \<and> cpost rt h U deps (set ms) st r"
proof (induction ms arbitrary: st)
  case Nil
  then show ?case by (simp add: cpost_def)
next
  case (Cons m ms)
  from IH[OF Cons.prems(2) Cons.prems(1), of m] Cons.prems(3,4)
  obtain r1 :: "'k dagError + 'p cstate"
    where r1: "cvisit rt h deps m st = Some r1" "cpost rt h U deps {m} st r1"
    by auto
  show ?case
  proof (cases r1)
    case (Inl e)
    then show ?thesis using r1 by (simp add: onOk_def cpost_def)
  next
    case (Inr st1)
    then have p1: "cinv U deps st1" "stack st1 = stack st" "inStack st1 = inStack st"
      "visited st \<subseteq> visited st1" "m \<in> visited st1"
      using r1(2) by (simp_all add: cpost_def)
    have "card (U - visited st1 - set (stack st1)) < M"
      using meas_mono[OF fin p1(4) p1(2)] Cons.prems(2) by simp
    from Cons.IH[OF p1(1) this] Cons.prems(3,4) p1(2)
    obtain r2 :: "'k dagError + 'p cstate"
      where r2: "forEach (cvisit rt h deps) ms st1 = Some r2"
        "cpost rt h U deps (set ms) st1 r2"
      by auto
    have "forEach (cvisit rt h deps) (m # ms) st = Some r2"
      using r1(1) Inr r2(1) by (simp add: onOk_def)
    moreover have "cpost rt h U deps (set (m # ms)) st r2"
      using r2(2) p1 by (cases r2) (auto simp: cpost_def)
    ultimately show ?thesis by blast
  qed
qed

lemma drop_cycle:
  assumes "cinv U deps st" "inStack st n = Some idx" "n \<in> set (deps (last (stack st)))"
  shows "isCycle deps (drop idx (stack st) @ [n])" "set (drop idx (stack st) @ [n]) \<subseteq> U"
proof -
  have i: "idx < length (stack st)" "stack st ! idx = n"
    using assms(1,2) by (auto simp: cinv_def)
  have ne: "drop idx (stack st) \<noteq> []" using i by simp
  have hd: "hd (drop idx (stack st)) = n" using i by (simp add: hd_drop_conv_nth)
  have "successively (\<lambda>a b. b \<in> set (deps a)) (drop idx (stack st))"
    using assms(1) by (metis cinv_def append_take_drop_id successively_append_iff)
  then have "successively (\<lambda>a b. b \<in> set (deps a)) (drop idx (stack st) @ [n])"
    using assms(3) i ne by (simp add: successively_append_iff)
  then show "isCycle deps (drop idx (stack st) @ [n])"
    using ne hd unfolding isCycle_def
    by (cases "drop idx (stack st)") auto
  have "set (drop idx (stack st)) \<subseteq> U"
    using assms(1) set_drop_subset[of idx "stack st"] by (auto simp: cinv_def)
  moreover have "n \<in> U" using assms(1) i nth_mem[of idx "stack st"] by (auto simp: cinv_def)
  ultimately show "set (drop idx (stack st) @ [n]) \<subseteq> U" by simp
qed

lemma cvisit_total:
  fixes rt :: runtime and h :: "'p \<Rightarrow> 'k Node"
  assumes fin: "finite U" and closed: "\<forall>u\<in>U. set (deps u) \<subseteq> U"
  shows "cinv U deps st \<Longrightarrow> n \<in> U \<Longrightarrow> stack st = [] \<or> n \<in> set (deps (last (stack st)))
     \<Longrightarrow> \<exists>r. cvisit rt h deps n st = Some (r :: 'k dagError + 'p cstate)
              \<and> cpost rt h U deps {n} st r"
proof (induction "card (U - visited st - set (stack st))" arbitrary: n st rule: less_induct)
  case less
  show ?case
  proof (cases "inStack st n")
    case (Some idx)
    then have "stack st \<noteq> []" using less.prems(1) by (auto simp: cinv_def)
    then have "n \<in> set (deps (last (stack st)))" using less.prems(3) by simp
    from drop_cycle[OF less.prems(1) Some this]
    have "cpost rt h U deps {n} st
            (Inl (cycleError rt h (drop idx (stack st) @ [n])) :: 'k dagError + 'p cstate)"
      unfolding cpost_def by (simp, intro exI[of _ "drop idx (stack st) @ [n]"]) simp
    moreover have "cvisit rt h deps n st = Some (Inl (cycleError rt h (drop idx (stack st) @ [n])))"
      using Some by (subst cvisit_unfold) simp
    ultimately show ?thesis by blast
  next
    case None
    show ?thesis
    proof (cases "n \<in> visited st")
      case True
      then show ?thesis using None less.prems(1)
        by (subst cvisit_unfold) (simp add: cpost_def)
    next
      case False
      have ns: "n \<notin> set (stack st)" using cinv_notin_stack[OF less.prems(1) None] .
      have pinv: "cinv U deps (push n st)"
        using push_inv[OF less.prems(1,2) False None less.prems(3)] .
      have "U - visited (push n st) - set (stack (push n st))
              = (U - visited st - set (stack st)) - {n}"
        by (auto simp: push_def)
      moreover have "n \<in> U - visited st - set (stack st)"
        using less.prems(2) False ns by simp
      moreover have "finite (U - visited st - set (stack st))" using fin by simp
      ultimately have lt: "card (U - visited (push n st) - set (stack (push n st)))
              < card (U - visited st - set (stack st))"
        by (metis card_Diff1_less)
      have sub: "set (deps n) \<subseteq> set (deps (last (stack (push n st))))" "set (deps n) \<subseteq> U"
        using closed less.prems(2) by (auto simp: push_def)
      have "\<exists>r. forEach (cvisit rt h deps) (deps n) (push n st)
                   = Some (r :: 'k dagError + 'p cstate)
                 \<and> cpost rt h U deps (set (deps n)) (push n st) r"
      proof (rule cloop[OF fin _ pinv lt sub])
        fix m s
        assume "card (U - visited s - set (stack s)) < card (U - visited st - set (stack st))"
          "cinv U deps s" "m \<in> U" "stack s = [] \<or> m \<in> set (deps (last (stack s)))"
        then show "\<exists>r. cvisit rt h deps m s = Some (r :: 'k dagError + 'p cstate)
                      \<and> cpost rt h U deps {m} s r"
          using less.hyps by blast
      qed
      then obtain r :: "'k dagError + 'p cstate"
        where r: "forEach (cvisit rt h deps) (deps n) (push n st) = Some r"
          "cpost rt h U deps (set (deps n)) (push n st) r" by blast
      show ?thesis
      proof (cases r)
        case (Inl e)
        then show ?thesis using r None False
          by (subst cvisit_unfold) (simp add: onOk_def cpost_def)
      next
        case (Inr st')
        then have p: "cinv U deps st'" "stack st' = stack (push n st)"
          "inStack st' = inStack (push n st)" "visited (push n st) \<subseteq> visited st'"
          "set (deps n) \<subseteq> visited st'"
          using r(2) by (simp_all add: cpost_def)
        have q: "cinv U deps (pop n st')" "stack (pop n st') = stack st"
          "inStack (pop n st') = inStack st"
          using pop_inv[OF p(1) _ _ None p(5) less.prems(2), of ] p(2,3)
          by (simp_all add: push_def)
        have "visited st \<subseteq> visited (pop n st')" "n \<in> visited (pop n st')"
          using p(4) by (auto simp: pop_def push_def)
        then have "cpost rt h U deps {n} st (Inr (pop n st') :: 'k dagError + 'p cstate)"
          using q by (simp add: cpost_def)
        moreover have "cvisit rt h deps n st
                         = Some (Inr (pop n st') :: 'k dagError + 'p cstate)"
          using r(1) Inr None False by (subst cvisit_unfold) (simp add: onOk_def)
        ultimately show ?thesis by blast
      qed
    qed
  qed
qed

definition cstep ::
  "runtime \<Rightarrow> ('p \<Rightarrow> 'k Node) \<Rightarrow> ('p \<Rightarrow> 'p list) \<Rightarrow> 'p \<Rightarrow> 'p cstate
     \<Rightarrow> ('k dagError + 'p cstate) option" where
  "cstep rt h deps n st = (if n \<notin> visited st then cvisit rt h deps n st else Some (Inr st))"

lemma couter:
  fixes rt :: runtime and h :: "'p \<Rightarrow> 'k Node"
  assumes fin: "finite U" and closed: "\<forall>u\<in>U. set (deps u) \<subseteq> U"
  shows "cinv U deps st \<Longrightarrow> stack st = [] \<Longrightarrow> set ns \<subseteq> U
     \<Longrightarrow> \<exists>r. forEach (cstep rt h deps) ns st = Some (r :: 'k dagError + 'p cstate)
              \<and> cpost rt h U deps (set ns) st r"
proof (induction ns arbitrary: st)
  case Nil
  then show ?case by (simp add: cpost_def)
next
  case (Cons m ms)
  have "\<exists>r. cstep rt h deps m st = Some (r :: 'k dagError + 'p cstate)
           \<and> cpost rt h U deps {m} st r"
  proof (cases "m \<in> visited st")
    case True
    then show ?thesis using Cons.prems(1) by (simp add: cstep_def cpost_def)
  next
    case False
    then show ?thesis
      using cvisit_total[OF fin closed Cons.prems(1), of m] Cons.prems(2,3)
      by (simp add: cstep_def)
  qed
  then obtain r1 :: "'k dagError + 'p cstate"
    where r1: "cstep rt h deps m st = Some r1" "cpost rt h U deps {m} st r1" by blast
  show ?case
  proof (cases r1)
    case (Inl e)
    then show ?thesis using r1 by (simp add: onOk_def cpost_def)
  next
    case (Inr st1)
    then have p1: "cinv U deps st1" "stack st1 = stack st" "inStack st1 = inStack st"
      "visited st \<subseteq> visited st1" "m \<in> visited st1"
      using r1(2) by (simp_all add: cpost_def)
    from Cons.IH[OF p1(1)] Cons.prems(2,3) p1(2)
    obtain r2 :: "'k dagError + 'p cstate"
      where r2: "forEach (cstep rt h deps) ms st1 = Some r2"
        "cpost rt h U deps (set ms) st1 r2"
      by auto
    have "forEach (cstep rt h deps) (m # ms) st = Some r2"
      using r1(1) Inr r2(1) by (simp add: onOk_def)
    moreover have "cpost rt h U deps (set (m # ms)) st r2"
      using r2(2) p1 by (cases r2) (auto simp: cpost_def)
    ultimately show ?thesis by blast
  qed
qed

lemma checkCycles_eq: "checkCycles rt h nodes deps =
    forEach (cstep rt h deps) nodes \<lparr>visited = {}, inStack = Map.empty, stack = []\<rparr>"
  unfolding checkCycles_def cstep_def ..

lemma checkCycles_total:
  fixes rt :: runtime and h :: "'p \<Rightarrow> 'k Node"
  assumes closed: "\<forall>u\<in>set nodes. set (deps u) \<subseteq> set nodes"
  shows "\<exists>r. checkCycles rt h nodes deps = Some (r :: 'k dagError + 'p cstate)
     \<and> (case r of
          Inr st' \<Rightarrow> \<forall>v\<in>set nodes. (v, v) \<notin> (edges deps)\<^sup>+
        | Inl e \<Rightarrow> \<exists>c. e = cycleError rt h c \<and> isCycle deps c \<and> set c \<subseteq> set nodes)"
proof -
  have "cinv (set nodes) deps \<lparr>visited = {}, inStack = Map.empty, stack = []\<rparr>"
    by (simp add: cinv_def)
  from couter[OF _ closed this, of nodes rt h]
  obtain r :: "'k dagError + 'p cstate"
    where r: "checkCycles rt h nodes deps = Some r"
      "cpost rt h (set nodes) deps (set nodes) \<lparr>visited = {}, inStack = Map.empty, stack = []\<rparr> r"
    by (auto simp: checkCycles_eq)
  show ?thesis
  proof (cases r)
    case (Inl e)
    then show ?thesis using r by (simp add: cpost_def)
  next
    case (Inr st')
    then have "cinv (set nodes) deps st'" "set nodes \<subseteq> visited st'"
      using r(2) by (simp_all add: cpost_def)
    then have "\<forall>v\<in>set nodes. (v, v) \<notin> (edges deps)\<^sup>+" by (auto simp: cinv_def)
    then show ?thesis using r(1) Inr by simp
  qed
qed

section \<open>The topological pass on an acyclic graph\<close>

definition tinv :: "'p set \<Rightarrow> ('p \<Rightarrow> 'p list) \<Rightarrow> 'p tstate \<Rightarrow> bool" where
  "tinv U deps st \<longleftrightarrow>
     tvisited st = set (sorted' st) \<and> distinct (sorted' st) \<and> set (sorted' st) \<subseteq> U
     \<and> (\<forall>i<length (sorted' st). set (deps (sorted' st ! i)) \<subseteq> set (take i (sorted' st)))"

definition tpost :: "'p set \<Rightarrow> ('p \<Rightarrow> 'p list) \<Rightarrow> 'p set \<Rightarrow> 'p tstate \<Rightarrow> 'p tstate option \<Rightarrow> bool" where
  "tpost U deps N st r =
     (case r of
        None \<Rightarrow> False
      | Some st' \<Rightarrow> tinv U deps st' \<and> N \<subseteq> tvisited st'
          \<and> (\<exists>ys. sorted' st' = sorted' st @ ys \<and> set ys \<subseteq> (edges deps)\<^sup>* `` N))"

definition tstep :: "('p \<Rightarrow> 'p list) \<Rightarrow> 'p \<Rightarrow> 'p tstate \<Rightarrow> 'p tstate option" where
  "tstep deps n st = (if n \<notin> tvisited st then tvisit deps n st else Some st)"

lemma tloop:
  assumes IH: "\<And>m s. m \<in> set ms \<Longrightarrow> tinv U deps s \<Longrightarrow> tpost U deps {m} s (f m s)"
  shows "tinv U deps st \<Longrightarrow> tpost U deps (set ms) st (forEachV f ms st)"
  using IH
proof (induction ms arbitrary: st)
  case Nil
  then show ?case by (simp add: tpost_def)
next
  case (Cons m ms)
  from Cons.prems(2)[of m st] Cons.prems(1)
  obtain st1 where s1: "f m st = Some st1" "tinv U deps st1" "m \<in> tvisited st1"
    and "\<exists>ys. sorted' st1 = sorted' st @ ys \<and> set ys \<subseteq> (edges deps)\<^sup>* `` {m}"
    by (auto simp: tpost_def split: option.splits)
  then obtain ys where ys: "sorted' st1 = sorted' st @ ys" "set ys \<subseteq> (edges deps)\<^sup>* `` {m}"
    by blast
  have "tpost U deps (set ms) st1 (forEachV f ms st1)"
    using Cons.IH[OF s1(2)] Cons.prems(2) by simp
  then obtain st2 where s2: "forEachV f ms st1 = Some st2" "tinv U deps st2"
    "set ms \<subseteq> tvisited st2"
    and "\<exists>zs. sorted' st2 = sorted' st1 @ zs \<and> set zs \<subseteq> (edges deps)\<^sup>* `` set ms"
    by (auto simp: tpost_def split: option.splits)
  then obtain zs where zs: "sorted' st2 = sorted' st1 @ zs" "set zs \<subseteq> (edges deps)\<^sup>* `` set ms"
    by blast
  have a: "forEachV f (m # ms) st = Some st2" using s1(1) s2(1) by simp
  have "m \<in> set (sorted' st1)" using s1(2,3) by (simp add: tinv_def)
  then have b: "m \<in> tvisited st2" using zs(1) s2(2) by (simp add: tinv_def)
  have c: "sorted' st2 = sorted' st @ (ys @ zs)" using ys zs by simp
  have d: "set (ys @ zs) \<subseteq> (edges deps)\<^sup>* `` set (m # ms)" using ys(2) zs(2) by auto
  show ?case unfolding tpost_def a using s2(2,3) b c d by (simp del: set_append)
qed

lemma tinv_snoc:
  assumes "tinv U deps st" "n \<notin> set (sorted' st)" "n \<in> U" "set (deps n) \<subseteq> set (sorted' st)"
  shows "tinv U deps (st\<lparr>tvisited := insert n (tvisited st), sorted' := sorted' st @ [n]\<rparr>)"
proof -
  have "\<forall>i<length (sorted' st @ [n]).
          set (deps ((sorted' st @ [n]) ! i)) \<subseteq> set (take i (sorted' st @ [n]))"
  proof (intro allI impI)
    fix i assume "i < length (sorted' st @ [n])"
    then consider "i < length (sorted' st)" | "i = length (sorted' st)" by fastforce
    then show "set (deps ((sorted' st @ [n]) ! i)) \<subseteq> set (take i (sorted' st @ [n]))"
    proof cases
      case 1
      then show ?thesis using assms(1) by (simp add: tinv_def nth_append)
    next
      case 2
      then show ?thesis using assms(4) by simp
    qed
  qed
  then show ?thesis using assms(1,2,3) by (simp add: tinv_def)
qed

lemma tvisit_total:
  assumes fin: "finite U" and closed: "\<forall>u\<in>U. set (deps u) \<subseteq> U"
    and acyc: "\<forall>v\<in>U. (v, v) \<notin> (edges deps)\<^sup>+"
  shows "n \<in> U \<Longrightarrow> tinv U deps st \<Longrightarrow> tpost U deps {n} st (tvisit deps n st)"
proof -
  define R where "R = {(b, a). a \<in> U \<and> b \<in> set (deps a)}"
  have sub: "R \<subseteq> (edges deps)\<inverse>" by (auto simp: R_def edges_def)
  have "R \<subseteq> U \<times> U" using closed by (auto simp: R_def)
  then have finR: "finite R" using fin by (meson finite_SigmaI finite_subset)
  have "acyclic R"
  proof (rule acyclicI, intro allI notI)
    fix x assume "(x, x) \<in> R\<^sup>+"
    then have "(x, x) \<in> ((edges deps)\<inverse>)\<^sup>+" using trancl_mono[OF _ sub] by blast
    then have xx: "(x, x) \<in> (edges deps)\<^sup>+" by (simp add: trancl_converse)
    from \<open>(x, x) \<in> R\<^sup>+\<close> obtain z where "(z, x) \<in> R" by (meson tranclD2)
    then have "x \<in> U" by (simp add: R_def)
    then show False using acyc xx by blast
  qed
  then have wfR: "wf R" using finR by (simp add: finite_acyclic_wf)
  show "n \<in> U \<Longrightarrow> tinv U deps st \<Longrightarrow> tpost U deps {n} st (tvisit deps n st)"
    using wfR
  proof (induction n arbitrary: st rule: wf_induct_rule)
    case (less n)
    show ?case
    proof (cases "n \<in> tvisited st")
      case True
      then show ?thesis using less.prems(2)
        by (subst tvisit.simps) (simp add: tpost_def)
    next
      case False
      have "tpost U deps (set (deps n)) st (forEachV (tvisit deps) (deps n) st)"
      proof (rule tloop[OF _ less.prems(2)])
        fix m s assume "m \<in> set (deps n)" "tinv U deps s"
        moreover from this have "(m, n) \<in> R" "m \<in> U" using less.prems(1) closed
          by (auto simp: R_def)
        ultimately show "tpost U deps {m} s (tvisit deps m s)" using less.IH by blast
      qed
      then obtain st' ys where s: "forEachV (tvisit deps) (deps n) st = Some st'"
        "tinv U deps st'" "set (deps n) \<subseteq> tvisited st'"
        "sorted' st' = sorted' st @ ys" "set ys \<subseteq> (edges deps)\<^sup>* `` set (deps n)"
        by (auto simp: tpost_def split: option.splits)
      have "n \<notin> set ys"
      proof
        assume "n \<in> set ys"
        then obtain m where "m \<in> set (deps n)" "(m, n) \<in> (edges deps)\<^sup>*" using s(5) by blast
        moreover from this have "(n, m) \<in> edges deps" by (simp add: edges_def)
        ultimately have "(n, n) \<in> (edges deps)\<^sup>+" by (meson rtrancl_into_trancl2)
        then show False using acyc less.prems(1) by blast
      qed
      moreover have "n \<notin> set (sorted' st)" using False less.prems(2) by (simp add: tinv_def)
      ultimately have nn: "n \<notin> set (sorted' st')" using s(4) by simp
      have dd: "set (deps n) \<subseteq> set (sorted' st')" using s(2,3) by (simp add: tinv_def)
      let ?st'' = "st'\<lparr>tvisited := insert n (tvisited st'), sorted' := sorted' st' @ [n]\<rparr>"
      have r: "tvisit deps n st = Some ?st''"
        using False s(1) by (subst tvisit.simps) simp
      have i: "tinv U deps ?st''" using tinv_snoc[OF s(2) nn less.prems(1) dd] .
      have "sorted' ?st'' = sorted' st @ (ys @ [n])" using s(4) by simp
      moreover have "set (ys @ [n]) \<subseteq> (edges deps)\<^sup>* `` {n}"
      proof -
        have "(edges deps)\<^sup>* `` set (deps n) \<subseteq> (edges deps)\<^sup>* `` {n}"
          by (auto simp: edges_def intro: converse_rtrancl_into_rtrancl)
        then show ?thesis using s(5) by auto
      qed
      ultimately show ?thesis unfolding tpost_def r using i by (simp del: set_append)
    qed
  qed
qed

section \<open>Producers and dependencies\<close>

definition allOutputs :: "('p \<Rightarrow> 'k Node) \<Rightarrow> 'p list \<Rightarrow> 'k list" where
  "allOutputs h ns = concat (map (\<lambda>n. Outputs (h n)) ns)"

definition inputSlots :: "('p \<Rightarrow> 'k Node) \<Rightarrow> 'p list \<Rightarrow> ('p \<times> 'k) list" where
  "inputSlots h ns = concat (map (\<lambda>n. map (\<lambda>k. (n, k)) (Inputs (h n))) ns)"

lemma allOutputs_simps [simp]:
  "allOutputs h [] = []" "allOutputs h (n # ns) = Outputs (h n) @ allOutputs h ns"
  by (simp_all add: allOutputs_def)

lemma inputSlots_simps [simp]:
  "inputSlots h [] = []"
  "inputSlots h (n # ns) = map (\<lambda>k. (n, k)) (Inputs (h n)) @ inputSlots h ns"
  by (simp_all add: inputSlots_def)

lemma set_allOutputs: "set (allOutputs h ns) = (\<Union>n\<in>set ns. set (Outputs (h n)))"
  by (simp add: allOutputs_def)

lemma addOutputs_Inr:
  "addOutputs rt h n outs P = Inr P' \<Longrightarrow>
     distinct outs \<and> set outs \<inter> dom P = {} \<and> (\<forall>k. P' k = (if k \<in> set outs then Some n else P k))"
proof (induction outs arbitrary: P)
  case Nil
  then show ?case by simp
next
  case (Cons out outs)
  from Cons.prems have none: "P out = None" by (simp split: option.splits)
  with Cons.prems have "addOutputs rt h n outs (P(out \<mapsto> n)) = Inr P'" by simp
  from Cons.IH[OF this] none show ?case by (auto simp: dom_def split: if_splits)
qed

lemma addOutputs_Inl:
  "addOutputs rt h n outs P = Inl e \<Longrightarrow>
     \<exists>k a. e = DuplicateProvider k (nodeLabel rt (h a)) (nodeLabel rt (h n)) \<and> k \<in> set outs
        \<and> (P k = Some a \<or> a = n)"
proof (induction outs arbitrary: P)
  case Nil
  then show ?case by simp
next
  case (Cons out outs)
  show ?case
  proof (cases "P out")
    case (Some a)
    then show ?thesis using Cons.prems by auto
  next
    case None
    with Cons.prems have "addOutputs rt h n outs (P(out \<mapsto> n)) = Inl e" by simp
    from Cons.IH[OF this] show ?thesis by (auto split: if_splits)
  qed
qed

lemma addOutputs_ok:
  "distinct outs \<Longrightarrow> set outs \<inter> dom P = {} \<Longrightarrow> \<exists>P'. addOutputs rt h n outs P = Inr P'"
proof (induction outs arbitrary: P)
  case Nil
  then show ?case by simp
next
  case (Cons out outs)
  then have none: "P out = None" by auto
  have "set outs \<inter> dom (P(out \<mapsto> n)) = {}" "distinct outs" using Cons.prems by auto
  from Cons.IH[OF this(2,1)] obtain P' where "addOutputs rt h n outs (P(out \<mapsto> n)) = Inr P'"
    by blast
  then show ?case using none by simp
qed

lemma mapProducers_Inr:
  "mapProducers rt h ns P = Inr P' \<Longrightarrow>
     distinct (allOutputs h ns) \<and> set (allOutputs h ns) \<inter> dom P = {}
     \<and> (\<forall>n\<in>set ns. \<forall>k\<in>set (Outputs (h n)). P' k = Some n)
     \<and> (\<forall>k. k \<notin> set (allOutputs h ns) \<longrightarrow> P' k = P k)"
proof (induction ns arbitrary: P)
  case Nil
  then show ?case by simp
next
  case (Cons n ns)
  from Cons.prems obtain P1 where
    p1: "addOutputs rt h n (Outputs (h n)) P = Inr P1" "mapProducers rt h ns P1 = Inr P'"
    by (auto split: sum.splits)
  note a = addOutputs_Inr[OF p1(1)]
  note b = Cons.IH[OF p1(2)]
  have dom1: "dom P1 = set (Outputs (h n)) \<union> dom P" using a by (auto simp: dom_def)
  have 1: "distinct (allOutputs h (n # ns))" using a b dom1 by auto
  have 2: "set (allOutputs h (n # ns)) \<inter> dom P = {}" using a b dom1 by auto
  have 3: "\<forall>m\<in>set (n # ns). \<forall>k\<in>set (Outputs (h m)). P' k = Some m"
  proof (intro ballI)
    fix m k assume m: "m \<in> set (n # ns)" and k: "k \<in> set (Outputs (h m))"
    show "P' k = Some m"
    proof (cases "m \<in> set ns")
      case True
      then show ?thesis using b k by blast
    next
      case False
      then have mn: "m = n" using m by simp
      then have "k \<in> dom P1" using dom1 k by simp
      then have "k \<notin> set (allOutputs h ns)" using b by blast
      then have "P' k = P1 k" using b by blast
      then show ?thesis using a k mn by simp
    qed
  qed
  have 4: "\<forall>k. k \<notin> set (allOutputs h (n # ns)) \<longrightarrow> P' k = P k" using a b by simp
  show ?case using 1 2 3 4 by blast
qed

lemma mapProducers_Inl:
  "mapProducers rt h ns P = Inl e \<Longrightarrow>
     \<exists>k a b. e = DuplicateProvider k (nodeLabel rt (h a)) (nodeLabel rt (h b))
        \<and> b \<in> set ns \<and> k \<in> set (Outputs (h b))
        \<and> (P k = Some a \<or> (a \<in> set ns \<and> k \<in> set (Outputs (h a))))"
proof (induction ns arbitrary: P)
  case Nil
  then show ?case by simp
next
  case (Cons n ns)
  show ?case
  proof (cases "addOutputs rt h n (Outputs (h n)) P")
    case (Inl e1)
    then have "e1 = e" using Cons.prems by simp
    with addOutputs_Inl[OF Inl] show ?thesis by fastforce
  next
    case (Inr P1)
    then have "mapProducers rt h ns P1 = Inl e" using Cons.prems by simp
    from Cons.IH[OF this] obtain k a b where
      x: "e = DuplicateProvider k (nodeLabel rt (h a)) (nodeLabel rt (h b))"
      "b \<in> set ns" "k \<in> set (Outputs (h b))"
      "P1 k = Some a \<or> (a \<in> set ns \<and> k \<in> set (Outputs (h a)))" by blast
    have "P1 k = Some a \<Longrightarrow> P k = Some a \<or> (a = n \<and> k \<in> set (Outputs (h n)))"
      using addOutputs_Inr[OF Inr] by (auto split: if_splits)
    then have "P k = Some a \<or> (a \<in> set (n # ns) \<and> k \<in> set (Outputs (h a)))"
      using x(4) by auto
    then show ?thesis using x(1,2,3) by (intro exI[of _ k] exI[of _ a] exI[of _ b]) simp
  qed
qed

lemma mapProducers_ok:
  "distinct (allOutputs h ns) \<Longrightarrow> set (allOutputs h ns) \<inter> dom P = {}
     \<Longrightarrow> \<exists>P'. mapProducers rt h ns P = Inr P'"
proof (induction ns arbitrary: P)
  case Nil
  then show ?case by simp
next
  case (Cons n ns)
  from Cons.prems have "distinct (Outputs (h n))" "set (Outputs (h n)) \<inter> dom P = {}"
    by auto
  from addOutputs_ok[OF this] obtain P1 where
    p1: "addOutputs rt h n (Outputs (h n)) P = Inr P1" by blast
  have "dom P1 = set (Outputs (h n)) \<union> dom P"
    using addOutputs_Inr[OF p1] by (auto simp: dom_def)
  then have "set (allOutputs h ns) \<inter> dom P1 = {}" using Cons.prems by auto
  moreover have "distinct (allOutputs h ns)" using Cons.prems by simp
  ultimately show ?case using Cons.IH[of P1] p1 by simp
qed

lemma addInputs_eq:
  "addInputs rt h P n ins D =
     (case find (\<lambda>k. P k = None) ins of
        Some k \<Rightarrow> Inl (MissingDependency k (nodeLabel rt (h n)))
      | None \<Rightarrow> Inr (D(n := D n @ map (\<lambda>k. the (P k)) ins)))"
proof (induction ins arbitrary: D)
  case Nil
  then show ?case by simp
next
  case (Cons i ins)
  then show ?case by (cases "P i") (auto split: option.splits)
qed

lemma find_slots:
  "find (\<lambda>(n, k). P k = None) (map (\<lambda>k. (n, k)) ins) = map_option (\<lambda>k. (n, k)) (find (\<lambda>k. P k = None) ins)"
  by (induction ins) auto

lemma find_app:
  "find Q (xs @ ys) = (case find Q xs of None \<Rightarrow> find Q ys | Some x \<Rightarrow> Some x)"
  by (induction xs) auto

definition missingSlot :: "('k \<rightharpoonup> 'p) \<Rightarrow> ('p \<Rightarrow> 'k Node) \<Rightarrow> 'p list \<Rightarrow> ('p \<times> 'k) option" where
  "missingSlot P h ns = find (\<lambda>(n, k). P k = None) (inputSlots h ns)"

lemma missingSlot_Cons:
  "missingSlot P h (n # ns) =
     (case find (\<lambda>k. P k = None) (Inputs (h n)) of
        Some k \<Rightarrow> Some (n, k)
      | None \<Rightarrow> missingSlot P h ns)"
  by (simp add: missingSlot_def find_app find_slots split: option.splits)

lemma buildDeps_missing:
  "missingSlot P h ns = Some (n, k) \<Longrightarrow>
     buildDeps rt h P ns D = Inl (MissingDependency k (nodeLabel rt (h n)))"
proof (induction ns arbitrary: D)
  case Nil
  then show ?case by (simp add: missingSlot_def)
next
  case (Cons m ms)
  then show ?case
    by (cases "find (\<lambda>k. P k = None) (Inputs (h m))")
       (simp_all add: missingSlot_Cons addInputs_eq)
qed

lemma buildDeps_Inr:
  "buildDeps rt h P ns D = Inr D' \<Longrightarrow>
     missingSlot P h ns = None
     \<and> (\<forall>a. set (D' a) = set (D a) \<union>
            (if a \<in> set ns then {p. \<exists>k\<in>set (Inputs (h a)). P k = Some p} else {}))"
proof (induction ns arbitrary: D)
  case Nil
  then show ?case by (simp add: missingSlot_def)
next
  case (Cons m ms)
  from Cons.prems have f: "find (\<lambda>k. P k = None) (Inputs (h m)) = None"
    by (simp add: addInputs_eq split: option.splits)
  then have all: "\<forall>k\<in>set (Inputs (h m)). \<exists>p. P k = Some p"
    by (auto simp: find_None_iff)
  let ?D1 = "D(m := D m @ map (\<lambda>k. the (P k)) (Inputs (h m)))"
  from Cons.prems f have "buildDeps rt h P ms ?D1 = Inr D'" by (simp add: addInputs_eq)
  note ih = Cons.IH[OF this]
  have new: "set (map (\<lambda>k. the (P k)) (Inputs (h m))) = {p. \<exists>k\<in>set (Inputs (h m)). P k = Some p}"
    using all by force
  have "\<forall>a. set (D' a) = set (D a) \<union>
            (if a \<in> set (m # ms) then {p. \<exists>k\<in>set (Inputs (h a)). P k = Some p} else {})"
  proof
    fix a
    have "set (D' a) = set (?D1 a) \<union>
            (if a \<in> set ms then {p. \<exists>k\<in>set (Inputs (h a)). P k = Some p} else {})"
      using ih by blast
    then show "set (D' a) = set (D a) \<union>
            (if a \<in> set (m # ms) then {p. \<exists>k\<in>set (Inputs (h a)). P k = Some p} else {})"
      using new by (cases "a = m") auto
  qed
  then show ?case using ih f by (simp add: missingSlot_Cons)
qed

lemma buildDeps_Inl:
  "buildDeps rt h P ns D = Inl e \<Longrightarrow>
     \<exists>n k. missingSlot P h ns = Some (n, k) \<and> e = MissingDependency k (nodeLabel rt (h n))"
proof (induction ns arbitrary: D)
  case Nil
  then show ?case by simp
next
  case (Cons m ms)
  then show ?case
    by (cases "find (\<lambda>k. P k = None) (Inputs (h m))")
       (auto simp: missingSlot_Cons addInputs_eq)
qed

section \<open>Resolve as a whole\<close>

definition dependsOn :: "('p \<Rightarrow> 'k Node) \<Rightarrow> 'p list \<Rightarrow> ('p \<times> 'p) set" where
  "dependsOn h nodes =
     {(a, b). a \<in> set nodes \<and> b \<in> set nodes \<and> set (Inputs (h a)) \<inter> set (Outputs (h b)) \<noteq> {}}"

lemma producers_iff:
  assumes "mapProducers rt h nodes Map.empty = Inr P"
  shows "P k = Some p \<longleftrightarrow> p \<in> set nodes \<and> k \<in> set (Outputs (h p))"
proof
  note m = mapProducers_Inr[OF assms]
  assume a: "P k = Some p"
  have "k \<in> set (allOutputs h nodes)"
  proof (rule ccontr)
    assume "k \<notin> set (allOutputs h nodes)"
    then have "P k = None" using m by simp
    then show False using a by simp
  qed
  then obtain n where "n \<in> set nodes" "k \<in> set (Outputs (h n))"
    by (auto simp: set_allOutputs)
  moreover from this have "P k = Some n" using m by blast
  ultimately show "p \<in> set nodes \<and> k \<in> set (Outputs (h p))" using a by simp
next
  assume "p \<in> set nodes \<and> k \<in> set (Outputs (h p))"
  then show "P k = Some p" using mapProducers_Inr[OF assms] by blast
qed

lemma producers_None:
  assumes "mapProducers rt h nodes Map.empty = Inr P"
  shows "P k = None \<longleftrightarrow> k \<notin> set (allOutputs h nodes)"
  using producers_iff[OF assms, of k] by (cases "P k") (auto simp: set_allOutputs)

lemma deps_edges:
  assumes mp: "mapProducers rt h nodes Map.empty = Inr P"
    and bd: "buildDeps rt h P nodes (\<lambda>_. []) = Inr D"
  shows "edges D = dependsOn h nodes" "\<forall>u\<in>set nodes. set (D u) \<subseteq> set nodes"
proof -
  have D: "\<And>a. set (D a) = (if a \<in> set nodes then {p. \<exists>k\<in>set (Inputs (h a)). P k = Some p} else {})"
    using buildDeps_Inr[OF bd] by simp
  show "edges D = dependsOn h nodes"
    unfolding edges_def dependsOn_def D
    by (auto simp: producers_iff[OF mp] split: if_splits)
  show "\<forall>u\<in>set nodes. set (D u) \<subseteq> set nodes"
    unfolding D by (auto simp: producers_iff[OF mp])
qed

definition tstart :: "'p tstate" where
  "tstart = \<lparr>tvisited = {}, sorted' = []\<rparr>"

lemma touter:
  assumes fin: "finite U" and closed: "\<forall>u\<in>U. set (deps u) \<subseteq> U"
    and acyc: "\<forall>v\<in>U. (v, v) \<notin> (edges deps)\<^sup>+"
    and sub: "set ns \<subseteq> U" and inv: "tinv U deps st"
  shows "tpost U deps (set ns) st (forEachV (tstep deps) ns st)"
proof (rule tloop[OF _ inv])
  fix m s assume m: "m \<in> set ns" and s: "tinv U deps s"
  show "tpost U deps {m} s (tstep deps m s)"
  proof (cases "m \<in> tvisited s")
    case True
    then show ?thesis using s by (simp add: tstep_def tpost_def)
  next
    case False
    then show ?thesis using tvisit_total[OF fin closed acyc _ s, of m] m sub
      by (auto simp: tstep_def)
  qed
qed

lemma topologicalSort_eq:
  "topologicalSort rt h nodes deps =
     onOk (checkCycles rt h nodes deps)
       (\<lambda>_. map_option (\<lambda>st. Inr (sorted' st)) (forEachV (tstep deps) nodes tstart))"
  unfolding topologicalSort_def tstep_def tstart_def ..

lemma topologicalSort_total:
  fixes rt :: runtime and h :: "'p \<Rightarrow> 'k Node"
  assumes closed: "\<forall>u\<in>set nodes. set (deps u) \<subseteq> set nodes"
  shows "\<exists>r. topologicalSort rt h nodes deps = Some r
     \<and> (case r of
          Inr order \<Rightarrow> (\<forall>v\<in>set nodes. (v, v) \<notin> (edges deps)\<^sup>+)
             \<and> distinct order \<and> set order = set nodes
             \<and> (\<forall>i<length order. set (deps (order ! i)) \<subseteq> set (take i order))
        | Inl e \<Rightarrow> \<exists>c. e = cycleError rt h c \<and> isCycle deps c \<and> set c \<subseteq> set nodes)"
proof -
  from checkCycles_total[OF closed, of rt h]
  obtain r :: "'k dagError + 'p cstate" where r: "checkCycles rt h nodes deps = Some r"
    "case r of Inr st' \<Rightarrow> \<forall>v\<in>set nodes. (v, v) \<notin> (edges deps)\<^sup>+
        | Inl e \<Rightarrow> \<exists>c. e = cycleError rt h c \<and> isCycle deps c \<and> set c \<subseteq> set nodes"
    by blast
  show ?thesis
  proof (cases r)
    case (Inl e)
    then show ?thesis using r by (simp add: topologicalSort_eq onOk_def)
  next
    case (Inr st')
    then have acyc: "\<forall>v\<in>set nodes. (v, v) \<notin> (edges deps)\<^sup>+" using r(2) by simp
    have "tinv (set nodes) deps tstart" by (simp add: tinv_def tstart_def)
    from touter[OF _ closed acyc _ this, of nodes]
    obtain st where st: "forEachV (tstep deps) nodes tstart = Some st"
      "tinv (set nodes) deps st" "set nodes \<subseteq> tvisited st"
      by (auto simp: tpost_def split: option.splits)
    have "topologicalSort rt h nodes deps = Some (Inr (sorted' st))"
      using r(1) Inr st(1) by (simp add: topologicalSort_eq onOk_def)
    moreover have "distinct (sorted' st)" "set (sorted' st) = set nodes"
      "\<forall>i<length (sorted' st). set (deps (sorted' st ! i)) \<subseteq> set (take i (sorted' st))"
      using st(2,3) by (auto simp: tinv_def)
    ultimately show ?thesis using acyc by simp
  qed
qed

lemma in_take_nth: "p \<in> set (take i xs) \<Longrightarrow> \<exists>j<i. j < length xs \<and> xs ! j = p"
  by (auto simp: in_set_conv_nth)

lemma Resolve_cases:
  obtains (dup) e where "mapProducers rt h nodes Map.empty = Inl e" "Resolve rt h nodes = Some (Inl e)"
  | (missing) P e where "mapProducers rt h nodes Map.empty = Inr P"
      "buildDeps rt h P nodes (\<lambda>_. []) = Inl e" "Resolve rt h nodes = Some (Inl e)"
  | (sort) P D where "mapProducers rt h nodes Map.empty = Inr P"
      "buildDeps rt h P nodes (\<lambda>_. []) = Inr D"
      "Resolve rt h nodes = topologicalSort rt h nodes D"
proof (cases "mapProducers rt h nodes Map.empty")
  case (Inl e)
  then show ?thesis using dup by (simp add: Resolve_def)
next
  case (Inr P)
  then show ?thesis using missing[of P] sort[of P]
    by (cases "buildDeps rt h P nodes (\<lambda>_. [])") (simp_all add: Resolve_def)
qed

lemma missingSlot_producers:
  assumes "mapProducers rt h nodes Map.empty = Inr P"
  shows "missingSlot P h ns = find (\<lambda>(n, k). k \<notin> set (allOutputs h nodes)) (inputSlots h ns)"
  unfolding missingSlot_def
  by (rule find_cong) (auto simp: producers_None[OF assms])

lemma Resolve_missing:
  assumes d: "distinct (allOutputs h nodes)"
    and f: "find (\<lambda>(n, k). k \<notin> set (allOutputs h nodes)) (inputSlots h nodes) = Some (n, k)"
  shows "Resolve rt h nodes = Some (Inl (MissingDependency k (nodeLabel rt (h n))))"
proof -
  from mapProducers_ok[OF d, of Map.empty rt] obtain P where
    P: "mapProducers rt h nodes Map.empty = Inr P" by auto
  have "missingSlot P h nodes = Some (n, k)" using missingSlot_producers[OF P] f by simp
  from buildDeps_missing[OF this] P show ?thesis by (simp add: Resolve_def)
qed


lemma Resolve_dup:
  assumes "\<not> distinct (allOutputs h nodes)"
  shows "\<exists>k a b. Resolve rt h nodes =
            Some (Inl (DuplicateProvider k (nodeLabel rt (h a)) (nodeLabel rt (h b))))
          \<and> a \<in> set nodes \<and> b \<in> set nodes
          \<and> k \<in> set (Outputs (h a)) \<and> k \<in> set (Outputs (h b))"
proof (cases "mapProducers rt h nodes Map.empty")
  case (Inr P)
  from mapProducers_Inr[OF this] assms show ?thesis by simp
next
  case (Inl e)
  from mapProducers_Inl[OF this] obtain k a b where
    "e = DuplicateProvider k (nodeLabel rt (h a)) (nodeLabel rt (h b))"
    "b \<in> set nodes" "k \<in> set (Outputs (h b))" "a \<in> set nodes" "k \<in> set (Outputs (h a))"
    by auto
  then show ?thesis using Inl by (auto simp: Resolve_def)
qed

lemma Resolve_no_dup:
  assumes "distinct (allOutputs h nodes)"
  shows "Resolve rt h nodes \<noteq> Some (Inl (DuplicateProvider k l1 l2))"
proof (cases rule: Resolve_cases[of rt h nodes])
  case (dup e)
  from mapProducers_ok[OF assms, of Map.empty rt] dup(1) show ?thesis by simp
next
  case (missing P e)
  from buildDeps_Inl[OF missing(2)] missing(3) show ?thesis by auto
next
  case (sort P D)
  from topologicalSort_total[OF deps_edges(2)[OF sort(1,2)], of rt h] sort(3)
  show ?thesis by (auto simp: cycleError_def)
qed

lemma shared_output_not_distinct:
  assumes "a \<in> set nodes" "b \<in> set nodes" "a \<noteq> b"
    and "k \<in> set (Outputs (h a))" "k \<in> set (Outputs (h b))"
  shows "\<not> distinct (allOutputs h nodes)"
proof
  assume "distinct (allOutputs h nodes)"
  from mapProducers_ok[OF this, of Map.empty undefined] obtain P where
    P: "mapProducers undefined h nodes Map.empty = Inr P" by auto
  from mapProducers_Inr[OF P] assms have "P k = Some a" "P k = Some b" by blast+
  then show False using assms(3) by simp
qed

lemma Resolve_order:
  assumes "Resolve rt h nodes = Some (Inr order)"
  shows "distinct order \<and> set order = set nodes
     \<and> (\<forall>i<length order. \<forall>k\<in>set (Inputs (h (order ! i))).
            \<exists>j<i. k \<in> set (Outputs (h (order ! j))))
     \<and> (\<forall>i<length order. \<forall>b. (order ! i, b) \<in> dependsOn h nodes \<longrightarrow> (\<exists>j<i. order ! j = b))"
proof (cases rule: Resolve_cases[of rt h nodes])
  case (dup e)
  then show ?thesis using assms by simp
next
  case (missing P e)
  then show ?thesis using assms by simp
next
  case (sort P D)
  note de = deps_edges[OF sort(1,2)]
  have ts: "topologicalSort rt h nodes D = Some (Inr order)" using sort(3) assms by simp
  from topologicalSort_total[OF de(2), of rt h] obtain r where
    r: "topologicalSort rt h nodes D = Some r"
    "case r of
          Inr order \<Rightarrow> (\<forall>v\<in>set nodes. (v, v) \<notin> (edges D)\<^sup>+)
             \<and> distinct order \<and> set order = set nodes
             \<and> (\<forall>i<length order. set (D (order ! i)) \<subseteq> set (take i order))
        | Inl e \<Rightarrow> \<exists>c. e = cycleError rt h c \<and> isCycle D c \<and> set c \<subseteq> set nodes"
    by blast
  from r(1) ts have "r = Inr order" by simp
  with r(2) have "distinct order \<and> set order = set nodes
    \<and> (\<forall>i<length order. set (D (order ! i)) \<subseteq> set (take i order))"
    by simp
  then have o: "distinct order" "set order = set nodes"
    "\<forall>i<length order. set (D (order ! i)) \<subseteq> set (take i order)"
    by blast+
  have ms: "missingSlot P h nodes = None" using buildDeps_Inr[OF sort(2)] by simp
  have a: "\<forall>i<length order. \<forall>b. (order ! i, b) \<in> dependsOn h nodes \<longrightarrow> (\<exists>j<i. order ! j = b)"
  proof (intro allI impI)
    fix i b assume i: "i < length order" and "(order ! i, b) \<in> dependsOn h nodes"
    then have "b \<in> set (D (order ! i))" using de(1) by (auto simp: edges_def)
    then have "b \<in> set (take i order)" using o(3) i by blast
    then show "\<exists>j<i. order ! j = b" using in_take_nth by fast
  qed
  have b: "\<forall>i<length order. \<forall>k\<in>set (Inputs (h (order ! i))).
            \<exists>j<i. k \<in> set (Outputs (h (order ! j)))"
  proof (intro allI impI ballI)
    fix i k assume i: "i < length order" and k: "k \<in> set (Inputs (h (order ! i)))"
    have n: "order ! i \<in> set nodes" using i o(2) nth_mem by blast
    then have "(order ! i, k) \<in> set (inputSlots h nodes)" using k
      by (auto simp: inputSlots_def)
    then have "P k \<noteq> None" using ms by (auto simp: missingSlot_def find_None_iff)
    then obtain p where p: "P k = Some p" by blast
    then have pp: "p \<in> set nodes" "k \<in> set (Outputs (h p))"
      using producers_iff[OF sort(1)] by auto
    then have "(order ! i, p) \<in> dependsOn h nodes" using n k by (auto simp: dependsOn_def)
    then obtain j where "j < i" "order ! j = p" using a i by blast
    then show "\<exists>j<i. k \<in> set (Outputs (h (order ! j)))" using pp(2) by blast
  qed
  show ?thesis using o(1,2) a b by blast
qed

lemma Resolve_total: "\<exists>r. Resolve rt h nodes = Some r"
proof (cases rule: Resolve_cases[of rt h nodes])
  case (dup e)
  then show ?thesis by simp
next
  case (missing P e)
  then show ?thesis by simp
next
  case (sort P D)
  from topologicalSort_total[OF deps_edges(2)[OF sort(1,2)], of rt h] sort(3)
  show ?thesis by auto
qed

text \<open>
  The result does not depend on what the store holds at pointers outside the list.
\<close>

lemma cycleError_agree:
  "\<forall>p\<in>set c. h' p = h p \<Longrightarrow> cycleError rt h' c = cycleError rt h c"
  by (simp add: cycleError_def cong: map_cong)

lemma cloop_agree:
  fixes rt :: runtime and h h' :: "'p \<Rightarrow> 'k Node"
  assumes fin: "finite U" and closed: "\<forall>u\<in>U. set (deps u) \<subseteq> U"
    and IH: "\<And>m s. card (U - visited s - set (stack s)) < M \<Longrightarrow> cinv U deps s \<Longrightarrow> m \<in> U
              \<Longrightarrow> stack s = [] \<or> m \<in> set (deps (last (stack s)))
              \<Longrightarrow> cvisit rt h' deps m s = cvisit rt h deps m s"
  shows "cinv U deps st \<Longrightarrow> card (U - visited st - set (stack st)) < M
         \<Longrightarrow> set ms \<subseteq> set (deps (last (stack st))) \<Longrightarrow> set ms \<subseteq> U
         \<Longrightarrow> forEach (cvisit rt h' deps) ms st = forEach (cvisit rt h deps) ms st"
proof (induction ms arbitrary: st)
  case Nil
  then show ?case by simp
next
  case (Cons m ms)
  have e: "cvisit rt h' deps m st = cvisit rt h deps m st"
    using IH[OF Cons.prems(2,1), of m] Cons.prems(3,4) by simp
  from cvisit_total[OF fin closed Cons.prems(1), of m rt h] Cons.prems(3,4)
  obtain r1 where r1: "cvisit rt h deps m st = Some r1" "cpost rt h U deps {m} st r1" by auto
  show ?case
  proof (cases r1)
    case (Inl e1)
    then show ?thesis using r1 e by (simp add: onOk_def)
  next
    case (Inr st1)
    then have p1: "cinv U deps st1" "stack st1 = stack st" "visited st \<subseteq> visited st1"
      using r1(2) by (simp_all add: cpost_def)
    have "card (U - visited st1 - set (stack st1)) < M"
      using meas_mono[OF fin p1(3) p1(2)] Cons.prems(2) by simp
    from Cons.IH[OF p1(1) this] Cons.prems(3,4) p1(2)
    have "forEach (cvisit rt h' deps) ms st1 = forEach (cvisit rt h deps) ms st1" by simp
    then show ?thesis using r1(1) e Inr by (simp add: onOk_def)
  qed
qed

lemma cvisit_agree:
  fixes rt :: runtime and h h' :: "'p \<Rightarrow> 'k Node"
  assumes fin: "finite U" and closed: "\<forall>u\<in>U. set (deps u) \<subseteq> U"
    and agree: "\<forall>p\<in>U. h' p = h p"
  shows "cinv U deps st \<Longrightarrow> n \<in> U \<Longrightarrow> stack st = [] \<or> n \<in> set (deps (last (stack st)))
     \<Longrightarrow> cvisit rt h' deps n st = cvisit rt h deps n st"
proof (induction "card (U - visited st - set (stack st))" arbitrary: n st rule: less_induct)
  case less
  show ?case
  proof (cases "inStack st n")
    case (Some idx)
    then have "stack st \<noteq> []" using less.prems(1) by (auto simp: cinv_def)
    then have "n \<in> set (deps (last (stack st)))" using less.prems(3) by simp
    from drop_cycle(2)[OF less.prems(1) Some this] agree
    have "cycleError rt h' (drop idx (stack st) @ [n]) = cycleError rt h (drop idx (stack st) @ [n])"
      by (intro cycleError_agree) blast
    then show ?thesis using Some by (simp add: cvisit_unfold)
  next
    case None
    show ?thesis
    proof (cases "n \<in> visited st")
      case True
      then show ?thesis using None by (simp add: cvisit_unfold)
    next
      case False
      have ns: "n \<notin> set (stack st)" using cinv_notin_stack[OF less.prems(1) None] .
      have pinv: "cinv U deps (push n st)"
        using push_inv[OF less.prems(1,2) False None less.prems(3)] .
      have "U - visited (push n st) - set (stack (push n st))
              = (U - visited st - set (stack st)) - {n}"
        by (auto simp: push_def)
      moreover have "n \<in> U - visited st - set (stack st)"
        using less.prems(2) False ns by simp
      moreover have "finite (U - visited st - set (stack st))" using fin by simp
      ultimately have lt: "card (U - visited (push n st) - set (stack (push n st)))
              < card (U - visited st - set (stack st))"
        by (metis card_Diff1_less)
      have sub: "set (deps n) \<subseteq> set (deps (last (stack (push n st))))" "set (deps n) \<subseteq> U"
        using closed less.prems(2) by (auto simp: push_def)
      have "forEach (cvisit rt h' deps) (deps n) (push n st)
              = forEach (cvisit rt h deps) (deps n) (push n st)"
      proof (rule cloop_agree[OF fin closed _ pinv lt sub])
        fix m s
        assume "card (U - visited s - set (stack s)) < card (U - visited st - set (stack st))"
          "cinv U deps s" "m \<in> U" "stack s = [] \<or> m \<in> set (deps (last (stack s)))"
        then show "cvisit rt h' deps m s = cvisit rt h deps m s"
          using less.hyps by blast
      qed
      then show ?thesis using None False by (simp add: cvisit_unfold)
    qed
  qed
qed

lemma couter_agree:
  fixes rt :: runtime and h h' :: "'p \<Rightarrow> 'k Node"
  assumes fin: "finite U" and closed: "\<forall>u\<in>U. set (deps u) \<subseteq> U"
    and agree: "\<forall>p\<in>U. h' p = h p"
  shows "cinv U deps st \<Longrightarrow> stack st = [] \<Longrightarrow> set ns \<subseteq> U
     \<Longrightarrow> forEach (cstep rt h' deps) ns st = forEach (cstep rt h deps) ns st"
proof (induction ns arbitrary: st)
  case Nil
  then show ?case by simp
next
  case (Cons m ms)
  have e: "cstep rt h' deps m st = cstep rt h deps m st"
    using cvisit_agree[OF fin closed agree Cons.prems(1), of m rt] Cons.prems(2,3)
    by (simp add: cstep_def)
  from couter[OF fin closed Cons.prems(1,2), of "[m]" rt h] Cons.prems(3)
  obtain r1 where r1: "cstep rt h deps m st = Some r1" "cpost rt h U deps {m} st r1"
    by (auto simp: onOk_def split: option.splits sum.splits)
  show ?case
  proof (cases r1)
    case (Inl e1)
    then show ?thesis using r1 e by (simp add: onOk_def)
  next
    case (Inr st1)
    then have p1: "cinv U deps st1" "stack st1 = stack st"
      using r1(2) by (simp_all add: cpost_def)
    from Cons.IH[OF p1(1)] Cons.prems(2,3) p1(2)
    have "forEach (cstep rt h' deps) ms st1 = forEach (cstep rt h deps) ms st1" by simp
    then show ?thesis using r1(1) e Inr by (simp add: onOk_def)
  qed
qed

lemma addOutputs_agree:
  "h' n = h n \<Longrightarrow> \<forall>p\<in>ran P. h' p = h p \<Longrightarrow>
     addOutputs rt h' n outs P = addOutputs rt h n outs P
     \<and> (\<forall>P'. addOutputs rt h n outs P = Inr P' \<longrightarrow> (\<forall>p\<in>ran P'. h' p = h p))"
proof (induction outs arbitrary: P)
  case Nil
  then show ?case by simp
next
  case (Cons out outs)
  show ?case
  proof (cases "P out")
    case (Some a)
    then have "a \<in> ran P" by (auto simp: ran_def)
    then show ?thesis using Some Cons.prems by simp
  next
    case None
    have "\<forall>p\<in>ran (P(out \<mapsto> n)). h' p = h p"
      using Cons.prems None by (auto simp: ran_def split: if_splits)
    note ih = Cons.IH[OF Cons.prems(1) this]
    show ?thesis unfolding addOutputs.simps None option.case by (rule ih)
  qed
qed

lemma mapProducers_agree:
  "\<forall>p\<in>set ns. h' p = h p \<Longrightarrow> \<forall>p\<in>ran P. h' p = h p \<Longrightarrow>
     mapProducers rt h' ns P = mapProducers rt h ns P"
proof (induction ns arbitrary: P)
  case Nil
  then show ?case by simp
next
  case (Cons n ns)
  have hn: "h' n = h n" using Cons.prems(1) by simp
  note a = addOutputs_agree[OF hn Cons.prems(2), of rt "Outputs (h n)"]
  show ?case
  proof (cases "addOutputs rt h n (Outputs (h n)) P")
    case (Inl e)
    then show ?thesis using a hn by simp
  next
    case (Inr P1)
    then have "\<forall>p\<in>ran P1. h' p = h p" using a by blast
    from Cons.IH[OF _ this] Cons.prems(1) Inr a hn show ?thesis by simp
  qed
qed

lemma addInputs_agree:
  "h' n = h n \<Longrightarrow> addInputs rt h' P n ins D = addInputs rt h P n ins D"
  by (simp add: addInputs_eq split: option.splits)

lemma buildDeps_agree:
  "\<forall>p\<in>set ns. h' p = h p \<Longrightarrow> buildDeps rt h' P ns D = buildDeps rt h P ns D"
proof (induction ns arbitrary: D)
  case Nil
  then show ?case by simp
next
  case (Cons n ns)
  have "addInputs rt h' P n (Inputs (h' n)) D = addInputs rt h P n (Inputs (h n)) D"
    using Cons.prems addInputs_agree[of h' n h rt P "Inputs (h n)" D] by simp
  moreover have "\<And>D1. buildDeps rt h' P ns D1 = buildDeps rt h P ns D1"
    using Cons.IH Cons.prems by simp
  ultimately show ?case by (simp split: sum.splits)
qed

lemma Resolve_agree:
  assumes "\<forall>p\<in>set nodes. h' p = h p"
  shows "Resolve rt h' nodes = Resolve rt h nodes"
proof -
  have mp: "mapProducers rt h' nodes Map.empty = mapProducers rt h nodes Map.empty"
    using mapProducers_agree[OF assms, of Map.empty rt] by simp
  show ?thesis
  proof (cases rule: Resolve_cases[of rt h nodes])
    case (dup e)
    then show ?thesis using mp by (simp add: Resolve_def)
  next
    case (missing P e)
    then show ?thesis using mp buildDeps_agree[OF assms, of rt P] by (simp add: Resolve_def)
  next
    case (sort P D)
    note de = deps_edges[OF sort(1,2)]
    have "cinv (set nodes) D \<lparr>visited = {}, inStack = Map.empty, stack = []\<rparr>"
      by (simp add: cinv_def)
    from couter_agree[OF _ de(2) assms this, of nodes rt]
    have "checkCycles rt h' nodes D = checkCycles rt h nodes D"
      by (simp add: checkCycles_eq)
    then have "topologicalSort rt h' nodes D = topologicalSort rt h nodes D"
      by (simp add: topologicalSort_eq)
    then show ?thesis using sort mp buildDeps_agree[OF assms, of rt P] by (simp add: Resolve_def)
  qed
qed

subsection \<open>The first clash of producer mapping\<close>

text \<open>
  Producer mapping is one walk over the output slots of the list: the keys of each node
  in declaration order, node after node in registration order.  It stops at the first
  slot whose key already has an entry.
\<close>

definition outputSlots :: "('p \<Rightarrow> 'k Node) \<Rightarrow> 'p list \<Rightarrow> ('k \<times> 'p) list" where
  "outputSlots h ns = concat (map (\<lambda>n. map (\<lambda>k. (k, n)) (Outputs (h n))) ns)"

lemma outputSlots_keys: "map fst (outputSlots h ns) = allOutputs h ns"
  by (induction ns) (simp_all add: outputSlots_def allOutputs_def comp_def)

fun slotFold ::
  "runtime \<Rightarrow> ('p \<Rightarrow> 'k Node) \<Rightarrow> ('k \<times> 'p) list \<Rightarrow> ('k \<rightharpoonup> 'p) \<Rightarrow> 'k dagError + ('k \<rightharpoonup> 'p)" where
  "slotFold rt h [] P = Inr P"
| "slotFold rt h ((k, n) # sl) P =
     (case P k of
        Some existing \<Rightarrow> Inl (DuplicateProvider k (nodeLabel rt (h existing)) (nodeLabel rt (h n)))
      | None \<Rightarrow> slotFold rt h sl (P(k \<mapsto> n)))"

lemma slotFold_append:
  "slotFold rt h (xs @ ys) P =
     (case slotFold rt h xs P of Inl e \<Rightarrow> Inl e | Inr P' \<Rightarrow> slotFold rt h ys P')"
  by (induction xs arbitrary: P) (auto split: option.splits)

lemma addOutputs_slotFold:
  "addOutputs rt h n outs P = slotFold rt h (map (\<lambda>k. (k, n)) outs) P"
  by (induction outs arbitrary: P) (auto split: option.splits)

lemma mapProducers_slotFold:
  "mapProducers rt h ns P = slotFold rt h (outputSlots h ns) P"
proof (induction ns arbitrary: P)
  case Nil
  then show ?case by (simp add: outputSlots_def)
next
  case (Cons n ns)
  have "outputSlots h (n # ns) = map (\<lambda>k. (k, n)) (Outputs (h n)) @ outputSlots h ns"
    by (simp add: outputSlots_def)
  then show ?case
    by (simp add: slotFold_append addOutputs_slotFold Cons.IH split: sum.splits)
qed

lemma slotFold_first_clash:
  assumes "distinct (map fst pre)" "\<not> distinct (map fst (pre @ sl))"
  shows "\<exists>i j k a b. i < j \<and> j < length (pre @ sl) \<and> (pre @ sl) ! i = (k, a)
           \<and> (pre @ sl) ! j = (k, b) \<and> distinct (take j (map fst (pre @ sl)))
           \<and> slotFold rt h sl (map_of pre) =
               Inl (DuplicateProvider k (nodeLabel rt (h a)) (nodeLabel rt (h b)))"
  using assms
proof (induction sl arbitrary: pre)
  case Nil
  then show ?case by simp
next
  case (Cons s sl)
  obtain k n where s: "s = (k, n)" by (cases s)
  show ?case
  proof (cases "map_of pre k")
    case (Some ex)
    then have "(k, ex) \<in> set pre" by (rule map_of_SomeD)
    then obtain i where i: "i < length pre" "pre ! i = (k, ex)" by (auto simp: in_set_conv_nth)
    have "take (length pre) (map fst (pre @ s # sl)) = map fst pre" by simp
    then have d: "distinct (take (length pre) (map fst (pre @ s # sl)))"
      using Cons.prems(1) by simp
    show ?thesis
      apply (rule exI[of _ i], rule exI[of _ "length pre"], rule exI[of _ k],
             rule exI[of _ ex], rule exI[of _ n])
      using i d Some s by (simp add: nth_append)
  next
    case None
    then have nk: "k \<notin> fst ` set pre" by (simp add: map_of_eq_None_iff)
    have d: "distinct (map fst (pre @ [s]))" using Cons.prems(1) nk s by simp
    have nd: "\<not> distinct (map fst ((pre @ [s]) @ sl))" using Cons.prems(2) by simp
    have m: "map_of (pre @ [s]) = (map_of pre)(k \<mapsto> n)"
      using None s by (auto simp: map_of_append map_add_def fun_eq_iff split: option.splits)
    from Cons.IH[OF d nd] obtain i j k' a b where
      x: "i < j" "j < length ((pre @ [s]) @ sl)" "((pre @ [s]) @ sl) ! i = (k', a)"
      "((pre @ [s]) @ sl) ! j = (k', b)" "distinct (take j (map fst ((pre @ [s]) @ sl)))"
      "slotFold rt h sl (map_of (pre @ [s])) =
         Inl (DuplicateProvider k' (nodeLabel rt (h a)) (nodeLabel rt (h b)))"
      by blast
    have "slotFold rt h (s # sl) (map_of pre) =
         Inl (DuplicateProvider k' (nodeLabel rt (h a)) (nodeLabel rt (h b)))"
      using x(6) None s m by simp
    moreover have eq: "(pre @ [s]) @ sl = pre @ s # sl" by simp
    ultimately show ?thesis using x(1-5) unfolding eq by blast
  qed
qed

lemma Resolve_first_clash:
  assumes "\<not> distinct (allOutputs h nodes)"
  shows "\<exists>i j k a b. i < j \<and> j < length (outputSlots h nodes)
           \<and> outputSlots h nodes ! i = (k, a) \<and> outputSlots h nodes ! j = (k, b)
           \<and> distinct (take j (allOutputs h nodes))
           \<and> Resolve rt h nodes =
               Some (Inl (DuplicateProvider k (nodeLabel rt (h a)) (nodeLabel rt (h b))))"
proof -
  have nd: "\<not> distinct (map fst ([] @ outputSlots h nodes))"
    using assms by (simp add: outputSlots_keys)
  from slotFold_first_clash[of "[]", OF _ nd, of rt h] obtain i j k a b where
    x: "i < j" "j < length (outputSlots h nodes)" "outputSlots h nodes ! i = (k, a)"
    "outputSlots h nodes ! j = (k, b)" "distinct (take j (map fst (outputSlots h nodes)))"
    "slotFold rt h (outputSlots h nodes) Map.empty =
       Inl (DuplicateProvider k (nodeLabel rt (h a)) (nodeLabel rt (h b)))"
    by auto
  have "Resolve rt h nodes =
       Some (Inl (DuplicateProvider k (nodeLabel rt (h a)) (nodeLabel rt (h b))))"
    using x(6) by (simp add: Resolve_def mapProducers_slotFold)
  then show ?thesis using x(1-5) unfolding outputSlots_keys by blast
qed

lemma slotFold_distinct:
  "distinct (map fst (pre @ sl)) \<Longrightarrow> slotFold rt h sl (map_of pre) = Inr (map_of (pre @ sl))"
proof (induction sl arbitrary: pre)
  case Nil
  then show ?case by simp
next
  case (Cons s sl)
  obtain k n where s: "s = (k, n)" by (cases s)
  have d: "distinct (map fst ((pre @ [s]) @ sl))" using Cons.prems by simp
  have nk: "map_of pre k = None" using Cons.prems s by (auto simp: map_of_eq_None_iff)
  have m: "map_of (pre @ [s]) = (map_of pre)(k \<mapsto> n)"
    using nk s by (auto simp: map_of_append map_add_def fun_eq_iff split: option.splits)
  have "slotFold rt h (s # sl) (map_of pre) = slotFold rt h sl ((map_of pre)(k \<mapsto> n))"
    using nk s by simp
  also have "\<dots> = slotFold rt h sl (map_of (pre @ [s]))" by (simp only: m)
  also have "\<dots> = Inr (map_of ((pre @ [s]) @ sl))" by (rule Cons.IH[OF d])
  finally show ?case by simp
qed

lemma outputSlots_append: "outputSlots h (xs @ ys) = outputSlots h xs @ outputSlots h ys"
  by (simp add: outputSlots_def)

lemma Resolve_clash_at:
  assumes "nodes = pre @ a # mid @ b # post"
    and "distinct (allOutputs h (pre @ a # mid))"
    and "k \<in> set (Outputs (h a))" and "Outputs (h b) = k # ks"
  shows "Resolve rt h nodes =
     Some (Inl (DuplicateProvider k (nodeLabel rt (h a)) (nodeLabel rt (h b))))"
proof -
  let ?S1 = "outputSlots h (pre @ a # mid)"
  have sl: "outputSlots h nodes = ?S1 @ (k, b) # (map (\<lambda>k. (k, b)) ks @ outputSlots h post)"
    using assms(1,4) by (simp add: outputSlots_def)
  have d: "distinct (map fst ([] @ ?S1))" using assms(2) by (simp add: outputSlots_keys)
  have f1: "slotFold rt h ?S1 Map.empty = Inr (map_of ?S1)"
    using slotFold_distinct[OF d, of rt h] by simp
  have "(k, a) \<in> set ?S1" using assms(3) by (auto simp: outputSlots_def)
  then have "map_of ?S1 k = Some a" using d by simp
  then have "slotFold rt h (outputSlots h nodes) Map.empty =
     Inl (DuplicateProvider k (nodeLabel rt (h a)) (nodeLabel rt (h b)))"
    unfolding sl slotFold_append f1 by simp
  then show ?thesis by (simp add: Resolve_def mapProducers_slotFold)
qed

section \<open>Execution, registration and teardown\<close>

lemma runCleanups_log:
  "runCleanups env cs errs w = (errs', w') \<Longrightarrow>
     \<exists>log. released w' = released w @ log \<and> map fst log = cs
       \<and> errs' = errs @ concat (map (\<lambda>(c, r). case r of None \<Rightarrow> [] | Some e \<Rightarrow> [e]) log)
       \<and> invoked w' = invoked w \<and> cancelled w' = cancelled w"
proof (induction cs arbitrary: errs w)
  case Nil
  then show ?case by simp
next
  case (Cons c cs)
  obtain r x where rx: "CallCleanup env c (ext w) = (r, x)" by (cases "CallCleanup env c (ext w)")
  let ?w1 = "w\<lparr>ext := x, released := released w @ [(c, r)]\<rparr>"
  let ?e1 = "case r of None \<Rightarrow> errs | Some e \<Rightarrow> errs @ [e]"
  from Cons.prems rx have "runCleanups env cs ?e1 ?w1 = (errs', w')" by simp
  from Cons.IH[OF this] obtain log where
    l: "released w' = released ?w1 @ log" "map fst log = cs"
    "errs' = ?e1 @ concat (map (\<lambda>(c, r). case r of None \<Rightarrow> [] | Some e \<Rightarrow> [e]) log)"
    "invoked w' = invoked ?w1" "cancelled w' = cancelled ?w1" by blast
  show ?case
    by (rule exI[of _ "(c, r) # log"]) (use l in \<open>simp split: option.splits\<close>)
qed

definition failures :: "('v \<times> 'e option) list \<Rightarrow> 'e list" where
  "failures log = concat (map (\<lambda>(c, r). case r of None \<Rightarrow> [] | Some e \<Rightarrow> [e]) log)"

lemma FnCall_Inr: "FnCall env fn args x = Inr r \<Longrightarrow> r = Call env fn args x"
  by (auto simp: FnCall_def split: fnval.splits if_splits)

lemma FnCall_GoFunc [simp]: "FnCall env (GoFunc pc) args x = Inr (Call env (GoFunc pc) args x)"
  by (simp add: FnCall_def)

lemma execute_nil_function:
  "gatherArgs (vals b) (Inputs p) = Inr args \<Longrightarrow> Fn p = NilFunc \<Longrightarrow>
     execute env p (b, w) = (Some (RuntimePanic ''reflect.Value.Call: call of nil function''), b, w)"
  by (simp add: execute_def FnCall_def)

lemma execute_variadic_mismatch:
  "gatherArgs (vals b) (Inputs p) = Inr args \<Longrightarrow> Fn p = GoVariadic pc False \<Longrightarrow>
     execute env p (b, w) =
       (Some (RuntimePanic ''reflect: cannot use slice as element type in Call''), b, w)"
  by (simp add: execute_def FnCall_def)

lemma execute_error_keeps_state:
  "execute env p (b, w) = (Some e, b', w') \<Longrightarrow> b' = b"
  by (auto simp: execute_def Let_def split: sum.splits prod.splits option.splits)

lemma checkErrorReturns_constructor:
  "checkErrorReturns results idxs = Some (ConstructorError e) \<Longrightarrow>
     \<exists>idx\<in>set idxs. idx < length results \<and> \<not> vIsNil (results ! idx) \<and> e = vError (results ! idx)"
  by (induction idxs) (auto simp: Let_def split: if_splits)

lemma gatherArgs_Inl:
  "gatherArgs values ins = Inl e \<Longrightarrow> \<exists>k\<in>set ins. e = InternalMissingValue k \<and> values k = None"
  by (induction ins) (auto split: option.splits sum.splits)

lemma executeAll_append:
  "executeAll env (pre @ post) bw =
     (case executeAll env pre bw of
        (Some e, bw') \<Rightarrow> (Some e, bw')
      | (None, bw') \<Rightarrow> executeAll env post bw')"
  by (induction pre arbitrary: bw) (auto split: prod.splits option.splits)

lemma executeAll_stops:
  assumes "executeAll env pre bw = (None, b1, w1)" "execute env p (b1, w1) = (Some e, b2, w2)"
  shows "executeAll env (pre @ p # post) bw = (Some e, b1, w2)"
  using assms execute_error_keeps_state[OF assms(2)] by (simp add: executeAll_append)

lemma checkErrorReturns_first:
  assumes "\<forall>idx\<in>set idxs. idx < length results \<and> nillable (vKind (results ! idx))"
  shows "checkErrorReturns results idxs =
     map_option (\<lambda>idx. ConstructorError (vError (results ! idx)))
       (find (\<lambda>idx. \<not> vIsNil (results ! idx)) idxs)"
  using assms by (induction idxs) (auto simp: Let_def)

text \<open>
  The short circuit of \<open>Run\<close>'s loop, for error slots whose kind can be nil: when the
  nodes before \<open>p\<close> ran without error and \<open>idx\<close> is the first error slot of
  \<open>p\<close> holding a non-nil value, the loop ends with exactly that error, the container is
  as the earlier nodes left it, and no later callable is invoked.
\<close>

lemma run_stops_at_first_error:
  assumes pre: "executeAll env pre bw = (None, b1, w1)"
    and args: "gatherArgs (vals b1) (Inputs p) = Inr args"
    and call: "FnCall env (Fn p) args (ext w1) = Inr (results, x)"
    and slots: "\<forall>idx\<in>set (ErrorIndices p). idx < length results \<and> nillable (vKind (results ! idx))"
    and err: "find (\<lambda>idx. \<not> vIsNil (results ! idx)) (ErrorIndices p) = Some idx"
  shows "executeAll env (pre @ p # post) bw =
     (Some (ConstructorError (vError (results ! idx))), b1,
      w1\<lparr>ext := x, invoked := invoked w1 @ [Fn p]\<rparr>)"
proof -
  have "execute env p (b1, w1) =
     (Some (ConstructorError (vError (results ! idx))), b1,
      w1\<lparr>ext := x, invoked := invoked w1 @ [Fn p]\<rparr>)"
    using args call err checkErrorReturns_first[OF slots] by (simp add: execute_def)
  from executeAll_stops[OF pre this] show ?thesis .
qed

lemma executeAll_invoked:
  "executeAll env ps (b, w) = (r, b', w') \<Longrightarrow>
     \<exists>k\<le>length ps. invoked w' = invoked w @ map Fn (take k ps) \<and> (r = None \<longrightarrow> k = length ps)
       \<and> providers b' = providers b \<and> err b' = err b"
proof (induction ps arbitrary: b w)
  case Nil
  then show ?case by simp
next
  case (Cons p ps)
  obtain r1 b1 w1 where e: "execute env p (b, w) = (r1, b1, w1)"
    by (cases "execute env p (b, w)")
  have st: "\<And>res i j bb. providers (storeResults p i j res bb) = providers bb
                      \<and> err (storeResults p i j res bb) = err bb"
  proof -
    fix res i j bb
    show "providers (storeResults p i j res bb) = providers bb
                      \<and> err (storeResults p i j res bb) = err bb"
      by (induction res arbitrary: i j bb) (auto simp: Let_def)
  qed
  have inv1: "invoked w1 = invoked w \<or> invoked w1 = invoked w @ [Fn p]"
    and pr1: "providers b1 = providers b" "err b1 = err b"
    and ok1: "r1 = None \<longrightarrow> invoked w1 = invoked w @ [Fn p]"
    using e st by (auto simp: execute_def Let_def split: sum.splits prod.splits option.splits)
  show ?case
  proof (cases r1)
    case (Some e1)
    then have "r = Some e1" "b' = b1" "w' = w1" using Cons.prems e by auto
    then show ?thesis using inv1 pr1
      by (cases "invoked w1 = invoked w") (auto intro: exI[of _ 0] exI[of _ 1])
  next
    case None
    then have "executeAll env ps (b1, w1) = (r, b', w')" using Cons.prems e by simp
    from Cons.IH[OF this] obtain k where k: "k \<le> length ps"
      "invoked w' = invoked w1 @ map Fn (take k ps)" "r = None \<longrightarrow> k = length ps"
      "providers b' = providers b1" "err b' = err b1" by blast
    show ?thesis using k ok1 None pr1
      by (intro exI[of _ "Suc k"]) simp
  qed
qed

lemma Run_resolve_error:
  assumes "err b = None"
    and "Resolve rt (\<lambda>i. providers b ! i) [0..<length (providers b)] = Some (Inl e)"
  shows "Run rt env (b, w) = Some (Some (DagError e), b, w)"
  using assms by (simp add: Run_def)

lemma add_error_unchanged:
  "add rt injT b c = (Some e, b1) \<Longrightarrow> b1 = b"
  by (cases c)
     (auto simp: registerProvider_def registerTargetPopulator_def registerStructInjector_def
        NewNode_def Let_def split: if_splits option.splits)

lemma checkInject_error:
  "checkInjectInTypes injT ts s = Some e \<Longrightarrow> \<exists>t. e = ProhibitedInject s t"
  by (induction ts) (auto simp: Let_def split: if_splits)

lemma add_error_kinds:
  "add rt injT b c = (Some e, b1) \<Longrightarrow> c \<noteq> NilInterface \<Longrightarrow>
     e = ArgumentNil \<or> e = ArgumentNotFuncOrPtr \<or> (\<exists>s t. e = ProhibitedInject s t)"
  by (cases c)
     (auto simp: registerProvider_def registerTargetPopulator_def registerStructInjector_def
        NewNode_def Let_def split: if_splits option.splits dest: checkInject_error)

lemma NewNode_func: "Kind typ = KFunc \<Longrightarrow> \<exists>p. NewNode val typ = Inr p \<and> Fn p = val"
  by (simp add: NewNode_def)

lemma registerProvider_cases:
  obtains (rejected) e where "registerProvider rt injT b val ty = (Some e, b)"
  | (known) "functions' b (Pointer rt val)" "registerProvider rt injT b val ty = (None, b)"
  | (fresh) p where "\<not> functions' b (Pointer rt val)" "NewNode val ty = Inr p"
      "registerProvider rt injT b val ty =
         (None, b\<lparr>functions' := (functions' b)(Pointer rt val := True),
                  providers := providers b @ [p]\<rparr>)"
  | (notfunc) e b1 where "NewNode val ty = Inl e"
      "registerProvider rt injT b val ty = (Some (DagError e), b1)"
proof (cases "checkInjectInTypes injT (In ty) ''input'' :: 'a error option")
  case (Some e)
  then show ?thesis using rejected[of e] by (simp add: registerProvider_def)
next
  case None
  note n1 = this
  show ?thesis
  proof (cases "checkInjectInTypes injT (Out ty) ''output'' :: 'a error option")
    case (Some e)
    then show ?thesis using rejected[of e] n1 by (simp add: registerProvider_def)
  next
    case None
    note n2 = this
    show ?thesis
    proof (cases "functions' b (Pointer rt val)")
      case True
      then show ?thesis using known n1 n2 by (simp add: registerProvider_def)
    next
      case False
      then show ?thesis using fresh notfunc n1 n2
        by (cases "NewNode val ty") (simp_all add: registerProvider_def Let_def)
    qed
  qed
qed

lemma registerTargetPopulator_eq:
  "registerTargetPopulator b ty addr =
     (None, b\<lparr>providers := providers b @
        [\<lparr>Fn = MadeFunc addr, Inputs = [Elem ty], Outputs = [], ErrorIndices = []\<rparr>]\<rparr>)"
  by (simp add: registerTargetPopulator_def NewNode_def Let_def)

lemma registerStructInjector_eq:
  "registerStructInjector injT b ty addr =
     (None, b\<lparr>providers := providers b @
        [\<lparr>Fn = MadeFunc addr,
          Inputs = map (\<lambda>(pkgPath, anonymous, ftype). ftype)
                     (filter (\<lambda>(pkgPath, anonymous, ftype). pkgPath = [] \<and> ftype \<noteq> injT)
                        (Fields (Elem ty))),
          Outputs = [], ErrorIndices = []\<rparr>]\<rparr>)"
  by (simp add: registerStructInjector_def NewNode_def Let_def)

lemma count_list_map_distinct:
  "distinct xs \<Longrightarrow> count_list (map f xs) y = card {x \<in> set xs. f x = y}"
proof (induction xs)
  case Nil
  then show ?case by simp
next
  case (Cons a xs)
  have fin: "finite {x \<in> set xs. f x = y}" by simp
  have "{x \<in> set (a # xs). f x = y} = (if f a = y then insert a {x \<in> set xs. f x = y}
                                         else {x \<in> set xs. f x = y})"
    by auto
  moreover have "a \<notin> {x \<in> set xs. f x = y}" using Cons.prems by simp
  ultimately show ?case using Cons fin by simp
qed

lemma count_list_permuted:
  assumes "distinct order" "set order = {0..<length xs}"
  shows "count_list (map (\<lambda>i. f (xs ! i)) order) y = count_list (map f xs) y"
proof -
  have "map f xs = map (\<lambda>i. f (xs ! i)) [0..<length xs]"
    by (rule nth_equalityI) simp_all
  then have "count_list (map f xs) y = card {i \<in> set [0..<length xs]. f (xs ! i) = y}"
    using count_list_map_distinct[of "[0..<length xs]" "\<lambda>i. f (xs ! i)" y] by simp
  then show ?thesis using count_list_map_distinct[OF assms(1), of "\<lambda>i. f (xs ! i)" y] assms(2)
    by simp
qed

lemma count_list_take: "count_list (take k xs) y \<le> count_list xs y"
proof (induction xs arbitrary: k)
  case Nil
  then show ?case by simp
next
  case (Cons a xs)
  then show ?case by (cases k) (auto intro: le_SucI)
qed



lemma Run_invoked:
  assumes "Run rt env (b, w) = Some (r, b2, w2)"
  shows "\<exists>new. invoked w2 = invoked w @ new
     \<and> (\<forall>f. count_list new f \<le> count_list (map Fn (providers b)) f)
     \<and> (r = None \<longrightarrow> (\<forall>f. count_list new f = count_list (map Fn (providers b)) f))"
proof (cases "err b")
  case (Some e)
  then show ?thesis using assms by (auto simp: Run_def)
next
  case None
  note nerr = this
  let ?h = "\<lambda>i. providers b ! i"
  let ?ns = "[0..<length (providers b)]"
  show ?thesis
  proof (cases "Resolve rt ?h ?ns")
    case None
    then show ?thesis using assms nerr by (simp add: Run_def)
  next
    case (Some res)
    show ?thesis
    proof (cases res)
      case (Inl e)
      then show ?thesis using assms nerr Some by (auto simp: Run_def)
    next
      case (Inr order)
      then have ro: "Resolve rt ?h ?ns = Some (Inr order)" using Some by simp
      from Resolve_order[OF ro] have d: "distinct order"
        "set order = {0..<length (providers b)}" by auto
      have ex: "executeAll env (map ?h order) (b, w) = (r, b2, w2)"
        using assms nerr ro by (simp add: Run_def)
      from executeAll_invoked[OF ex] obtain k where
        k: "invoked w2 = invoked w @ map Fn (take k (map ?h order))"
        "r = None \<longrightarrow> k = length (map ?h order)" by blast
      have c: "\<And>f. count_list (map Fn (map ?h order)) f = count_list (map Fn (providers b)) f"
        using count_list_permuted[OF d, of Fn] by (simp add: comp_def)
      have le: "\<And>f. count_list (map Fn (take k (map ?h order))) f
                 \<le> count_list (map Fn (providers b)) f"
        using count_list_take[of k "map Fn (map ?h order)"] c by (simp add: take_map)
      show ?thesis
        using k le c by (intro exI[of _ "map Fn (take k (map ?h order))"]) auto
    qed
  qed
qed

lemma Run_total: "\<exists>res. Run rt env (b, w) = Some res"
proof (cases "err b")
  case (Some e)
  then show ?thesis by (simp add: Run_def)
next
  case None
  from Resolve_total[of rt "\<lambda>i. providers b ! i" "[0..<length (providers b)]"]
  obtain r where "Resolve rt (\<lambda>i. providers b ! i) [0..<length (providers b)] = Some r"
    by blast
  then have "Run rt env (b, w) \<noteq> None" using None by (cases r) (simp_all add: Run_def)
  then show ?thesis by blast
qed

text \<open>
  What the teardown loop does, call by call: the external state after the release actions
  of a list, and the log of the calls with what each returned.
\<close>

definition extAfter :: "('e, 'w) env \<Rightarrow> 'e val list \<Rightarrow> 'w \<Rightarrow> 'w" where
  "extAfter env cs x = foldl (\<lambda>x c. snd (CallCleanup env c x)) x cs"

fun releaseLog :: "('e, 'w) env \<Rightarrow> 'e val list \<Rightarrow> 'w \<Rightarrow> ('e val \<times> 'e option) list" where
  "releaseLog env [] x = []"
| "releaseLog env (c # cs) x =
     (c, fst (CallCleanup env c x)) # releaseLog env cs (snd (CallCleanup env c x))"

lemma length_releaseLog [simp]: "length (releaseLog env cs x) = length cs"
  by (induction cs arbitrary: x) simp_all

lemma releaseLog_nth:
  "i < length cs \<Longrightarrow>
     releaseLog env cs x ! i = (cs ! i, fst (CallCleanup env (cs ! i) (extAfter env (take i cs) x)))"
proof (induction cs arbitrary: x i)
  case Nil
  then show ?case by simp
next
  case (Cons c cs)
  show ?case
  proof (cases i)
    case 0
    then show ?thesis by (simp add: extAfter_def)
  next
    case (Suc j)
    then have "j < length cs" using Cons.prems by simp
    from Cons.IH[OF this, of "snd (CallCleanup env c x)"] Suc show ?thesis
      by (simp add: extAfter_def)
  qed
qed

lemma failures_simps [simp]:
  "failures [] = []"
  "failures ((c, None) # log) = failures log"
  "failures ((c, Some e) # log) = e # failures log"
  by (simp_all add: failures_def)

lemma runCleanups_exact:
  "runCleanups env cs errs w =
     (errs @ failures (releaseLog env cs (ext w)),
      w\<lparr>ext := extAfter env cs (ext w), released := released w @ releaseLog env cs (ext w)\<rparr>)"
proof (induction cs arbitrary: errs w)
  case Nil
  then show ?case by (simp add: extAfter_def)
next
  case (Cons c cs)
  obtain r x where rx: "CallCleanup env c (ext w) = (r, x)" by (cases "CallCleanup env c (ext w)")
  show ?case
    by (cases r) (simp_all add: rx Cons.IH extAfter_def)
qed

text \<open>
  What registration keeps true: every constructor node of the container is recorded in
  \<open>functions\<close>.  It holds of the empty container, and \<open>Add\<close> keeps it.
\<close>

definition regInv :: "'e Bootstrap \<Rightarrow> bool" where
  "regInv b \<longleftrightarrow> (\<forall>p\<in>set (providers b). \<forall>pc. Fn p = GoFunc pc \<longrightarrow> functions' b pc)"

lemma regInv_empty:
  "regInv \<lparr>providers = [], vals = Map.empty, cleanups = [], functions' = (\<lambda>pc. False), err = None\<rparr>"
  by (simp add: regInv_def)

lemma regInv_registerProvider:
  assumes "regInv b" "Kind ty = KFunc" "registerProvider rt injT b val ty = (r, b')"
  shows "regInv b'"
proof (cases rule: registerProvider_cases[of rt injT b val ty])
  case (rejected e)
  then show ?thesis using assms by simp
next
  case known
  then show ?thesis using assms by simp
next
  case (fresh p)
  from NewNode_func[OF assms(2), of val] fresh(2) have "Fn p = val" by simp
  then show ?thesis using assms(1,3) fresh(3) by (cases val) (auto simp: regInv_def)
next
  case (notfunc e b1)
  then show ?thesis using NewNode_func[OF assms(2), of val] by simp
qed

lemma regInv_add:
  assumes "regInv b" "add rt injT b c = (r, b')"
  shows "regInv b'"
proof (cases c)
  case NilInterface
  then show ?thesis using assms by simp
next
  case (Value ty fnv isNil addr)
  show ?thesis
  proof (cases "Kind ty = KFunc")
    case True
    then show ?thesis using assms Value regInv_registerProvider[of b ty rt injT fnv r b'] by simp
  next
    case False
    then show ?thesis using assms Value
      by (auto simp: registerTargetPopulator_eq registerStructInjector_eq regInv_def Let_def
               split: if_splits)
  qed
qed

lemma regInv_err: "regInv (b\<lparr>err := e\<rparr>) = regInv b"
  by (simp add: regInv_def)

lemma regInv_addEach:
  "regInv b \<Longrightarrow> addEach rt injT b cs = Inr b' \<Longrightarrow> regInv b'"
proof (induction cs arbitrary: b)
  case Nil
  then show ?case by simp
next
  case (Cons c cs)
  obtain r b1 where a: "add rt injT b c = (r, b1)" by (cases "add rt injT b c")
  have i1: "regInv b1" using regInv_add[OF Cons.prems(1) a] .
  show ?case
  proof (cases r)
    case None
    then show ?thesis using Cons.prems(2) a Cons.IH[OF i1] by simp
  next
    case (Some e)
    then show ?thesis using Cons.prems(2) a i1 by (cases e) (auto simp: regInv_err)
  qed
qed

lemma regInv_Add: "regInv b \<Longrightarrow> Add rt injT b cs = Inr b' \<Longrightarrow> regInv b'"
  by (auto simp: Add_def regInv_addEach split: if_splits)








section \<open>A worked example\<close>

text \<open>
  Three constructors registered in the order server, database, configuration: the server
  needs the database, the database needs the configuration and may fail.
\<close>

definition tConfig :: rtype where "tConfig = Named ''*Config'' KPtr False"

definition tDatabase :: rtype where "tDatabase = Named ''*Database'' KPtr False"

definition tServer :: rtype where "tServer = Named ''*Server'' KPtr False"

definition tError :: rtype where "tError = Named ''error'' KInterface True"

definition exRuntime :: runtime where
  "exRuntime =
     \<lparr>FuncForPC = (\<lambda>pc.
        if pc = 1 then Some \<lparr>Name = ''main.NewConfig'', File = ''main.go'', Line = 10\<rparr>
        else if pc = 2 then Some \<lparr>Name = ''main.NewDatabase'', File = ''main.go'', Line = 20\<rparr>
        else if pc = 3 then Some \<lparr>Name = ''main.main.func1'', File = ''main.go'', Line = 42\<rparr>
        else None),
      makeFuncStub = 99\<rparr>"

definition exServer :: "rtype Node" where
  "exServer = \<lparr>Fn = GoFunc 3, Inputs = [tDatabase], Outputs = [tServer], ErrorIndices = []\<rparr>"

definition exDatabase :: "rtype Node" where
  "exDatabase = \<lparr>Fn = GoFunc 2, Inputs = [tConfig], Outputs = [tDatabase], ErrorIndices = [1]\<rparr>"

definition exConfig :: "rtype Node" where
  "exConfig = \<lparr>Fn = GoFunc 1, Inputs = [], Outputs = [tConfig], ErrorIndices = []\<rparr>"

definition exNodes :: "rtype Node list" where
  "exNodes = [exServer, exDatabase, exConfig]"

lemmas ex_defs = exNodes_def exServer_def exDatabase_def exConfig_def tConfig_def tDatabase_def
  tServer_def tError_def exRuntime_def

definition exTwice :: "rtype Node list" where
  "exTwice = [\<lparr>Fn = GoFunc 1, Inputs = [], Outputs = [tConfig, tConfig], ErrorIndices = []\<rparr>]"

definition exDup :: "rtype Node list" where
  "exDup = [exConfig, \<lparr>Fn = GoFunc 2, Inputs = [], Outputs = [tConfig], ErrorIndices = []\<rparr>]"

definition exCyclic :: "rtype Node list" where
  "exCyclic = [\<lparr>Fn = GoFunc 1, Inputs = [tDatabase], Outputs = [tConfig], ErrorIndices = []\<rparr>,
               exDatabase]"

definition exSelfMissing :: "rtype Node list" where
  "exSelfMissing =
     [\<lparr>Fn = GoFunc 1, Inputs = [tConfig, tServer], Outputs = [tConfig], ErrorIndices = []\<rparr>]"

lemmas ex2_defs = exTwice_def exDup_def exCyclic_def exSelfMissing_def

text \<open>
  Unfolding rules for running the two passes on a concrete graph: each applies only when
  its side condition evaluates to true.
\<close>

lemma cvisit_on_stack:
  "inStack st n \<noteq> None \<Longrightarrow>
     cvisit rt h deps n st =
       Some (Inl (cycleError rt h (drop (the (inStack st n)) (stack st) @ [n])))"
  by (subst cvisit.simps) auto

lemma cvisit_done:
  "inStack st n = None \<Longrightarrow> n \<in> visited st \<Longrightarrow> cvisit rt h deps n st = Some (Inr st)"
  by (subst cvisit.simps) simp

lemma cvisit_fresh:
  "inStack st n = None \<Longrightarrow> n \<notin> visited st \<Longrightarrow>
     cvisit rt h deps n st =
       onOk (forEach (cvisit rt h deps) (deps n)
               (st\<lparr>inStack := (inStack st)(n \<mapsto> length (stack st)), stack := stack st @ [n]\<rparr>))
         (\<lambda>st'. Some (Inr (st'\<lparr>stack := butlast (stack st'),
                               inStack := (inStack st')(n := None),
                               visited := insert n (visited st')\<rparr>)))"
  by (subst cvisit.simps) simp

lemma tvisit_done: "n \<in> tvisited st \<Longrightarrow> tvisit deps n st = Some st"
  by (subst tvisit.simps) simp

lemma tvisit_fresh:
  "n \<notin> tvisited st \<Longrightarrow>
     tvisit deps n st =
       Option.bind (forEachV (tvisit deps) (deps n) st)
         (\<lambda>st'. Some (st'\<lparr>tvisited := insert n (tvisited st'), sorted' := sorted' st' @ [n]\<rparr>))"
  by (subst tvisit.simps) simp

lemmas eval_simps = Resolve_def topologicalSort_def checkCycles_def
  cvisit_on_stack cvisit_done cvisit_fresh tvisit_done tvisit_fresh
  onOk_def cycleError_def nodeLabel_def

lemma ex_resolve: "Resolve exRuntime ((!) exNodes) [0, 1, 2] = Some (Inr [2, 1, 0])"
  by (simp add: ex_defs eval_simps)

lemma ex_twice: "Resolve exRuntime ((!) exTwice) [0] =
    Some (Inl (DuplicateProvider tConfig ''main.NewConfig'' ''main.NewConfig''))"
  by (simp add: ex_defs ex2_defs eval_simps)

lemma ex_dup: "Resolve exRuntime ((!) exDup) [0, 1] =
    Some (Inl (DuplicateProvider tConfig ''main.NewConfig'' ''main.NewDatabase''))"
  by (simp add: ex_defs ex2_defs eval_simps)





definition tInject :: rtype where "tInject = StructT ''bootstrap.Inject'' [] False"

definition tMyErr :: rtype where "tMyErr = StructT ''main.MyErr'' [] True"

definition vConfig :: "string val" where
  "vConfig = \<lparr>vIsValid = True, vKind = KPtr, vIsNil = False, vCleanable = False, vError = [], vData = 1\<rparr>"

definition vNilDatabase :: "string val" where
  "vNilDatabase = \<lparr>vIsValid = True, vKind = KPtr, vIsNil = True, vCleanable = True, vError = [], vData = 0\<rparr>"

definition vRefused :: "string val" where
  "vRefused = \<lparr>vIsValid = True, vKind = KInterface, vIsNil = False, vCleanable = False,
               vError = ''connection refused'', vData = 0\<rparr>"

definition vServer :: "string val" where
  "vServer = \<lparr>vIsValid = True, vKind = KPtr, vIsNil = False, vCleanable = True, vError = [], vData = 3\<rparr>"

definition vMyErr :: "string val" where
  "vMyErr = \<lparr>vIsValid = True, vKind = KStruct, vIsNil = False, vCleanable = False,
             vError = ''boom'', vData = 0\<rparr>"

definition exEnv :: "(string, unit) env" where
  "exEnv =
     \<lparr>Call = (\<lambda>f args x.
        if f = GoFunc 1 then ([vConfig], x)
        else if f = GoFunc 2 then ([vNilDatabase, vRefused], x)
        else if f = GoFunc 4 then ([vMyErr], x)
        else ([vServer], x)),
      CallCleanup = (\<lambda>c x. (None, x))\<rparr>"

definition exWorld :: "(string, unit) world" where
  "exWorld = \<lparr>ext = (), invoked = [], released = [], cancelled = False\<rparr>"

definition exEmpty :: "string Bootstrap" where
  "exEmpty = \<lparr>providers = [], vals = Map.empty, cleanups = [], functions' = (\<lambda>pc. False),
               err = None\<rparr>"

definition exBoot :: "string Bootstrap" where
  "exBoot = exEmpty\<lparr>providers := exNodes, functions' := (\<lambda>pc. pc \<in> {1, 2, 3})\<rparr>"

definition argInvalid :: goValue where
  "argInvalid = Value (Named ''string'' KOther False) (GoFunc 0) False 0"

definition argNewConfig :: goValue where
  "argNewConfig = Value (FuncT [] [tConfig]) (GoFunc 1) False 0"

definition argNewMyErr :: goValue where
  "argNewMyErr = Value (FuncT [] [tMyErr]) (GoFunc 4) False 0"

definition exMissing :: "rtype Node list" where
  "exMissing = [\<lparr>Fn = GoFunc 3, Inputs = [tConfig], Outputs = [], ErrorIndices = []\<rparr>]"

definition exDupMissing :: "rtype Node list" where
  "exDupMissing =
     [exConfig, \<lparr>Fn = GoFunc 2, Inputs = [tServer], Outputs = [tConfig], ErrorIndices = []\<rparr>]"

definition exStructErr :: "string Bootstrap" where
  "exStructErr =
     exEmpty\<lparr>functions' := (\<lambda>pc. False)(4 := True),
             providers := [\<lparr>Fn = GoFunc 4, Inputs = [], Outputs = [], ErrorIndices = [0]\<rparr>]\<rparr>"

lemmas exb_defs = tInject_def tMyErr_def vConfig_def vNilDatabase_def vRefused_def vServer_def
  vMyErr_def exEnv_def exWorld_def exEmpty_def exBoot_def argInvalid_def argNewConfig_def
  argNewMyErr_def

lemmas boot_simps = Add_def Run_def registerProvider_def NewNode_def execute_def nillable_def
  hasInject_def Let_def

lemma upt3: "[0..<3] = [0, 1, 2]"
  by (simp add: eval_nat_numeral)

lemma ex_run: "Run exRuntime exEnv (exBoot, exWorld) =
    Some (Some (ConstructorError ''connection refused''),
          exBoot\<lparr>vals := [tConfig \<mapsto> vConfig]\<rparr>,
          exWorld\<lparr>invoked := [GoFunc 1, GoFunc 2]\<rparr>)"
  by (simp add: exb_defs ex_defs boot_simps eval_simps upt3)

lemma ex_missing: "Resolve exRuntime ((!) exMissing) [0] =
    Some (Inl (MissingDependency tConfig ''main.go:42''))"
  by (simp add: ex_defs exMissing_def eval_simps decimal.simps digit_def)

lemma ex_dup_missing: "Resolve exRuntime ((!) exDupMissing) [0, 1] =
    Some (Inl (DuplicateProvider tConfig ''main.NewConfig'' ''main.NewDatabase''))"
  by (simp add: ex_defs exDupMissing_def eval_simps)

text \<open>
  More containers: two constructors of the same type, two values with a release action of
  which the first fails, an environment that counts the calls made in the external state,
  one constructor registered, and the same with a consumer whose input nobody produces.
\<close>

definition exDupBoot :: "string Bootstrap" where
  "exDupBoot = exEmpty\<lparr>providers := exDup, functions' := (\<lambda>pc. pc \<in> {1, 2})\<rparr>"

lemma upt2: "[0..<2] = [0, 1]"
  by (simp add: eval_nat_numeral)

definition vCleaner1 :: "string val" where
  "vCleaner1 = \<lparr>vIsValid = True, vKind = KPtr, vIsNil = False, vCleanable = True, vError = [], vData = 7\<rparr>"

definition vCleaner2 :: "string val" where
  "vCleaner2 = \<lparr>vIsValid = True, vKind = KPtr, vIsNil = False, vCleanable = True, vError = [], vData = 8\<rparr>"

definition exEnvCount :: "(string, nat) env" where
  "exEnvCount =
     \<lparr>Call = (\<lambda>f args x. (if f = GoFunc 1 then [vConfig] else [vServer], Suc x)),
      CallCleanup = (\<lambda>c x. (if vData c = 7 then Some ''disk full'' else None, Suc x))\<rparr>"

definition exCleaners :: "string Bootstrap" where
  "exCleaners = exEmpty\<lparr>cleanups := [vCleaner1, vCleaner2]\<rparr>"

definition exWorldCount :: "(string, nat) world" where
  "exWorldCount = \<lparr>ext = 0, invoked = [], released = [], cancelled = False\<rparr>"

lemma list2_nth: "length xs = 2 \<Longrightarrow> xs = [xs ! 0, xs ! 1]"
  by (cases xs; cases "tl xs") auto






section \<open>The claims\<close>

text \<open>
  C1.  Whenever \<open>Resolve\<close> succeeds, the sequence it returns holds every node of the
  list exactly once, every input key of the node at position \<open>i\<close> is an output key of
  a node at a position strictly before \<open>i\<close>, and every node that the node at position
  \<open>i\<close> depends on stands strictly before it.
\<close>

theorem resolve_topological_order:
  assumes "Resolve rt h nodes = Some (Inr order)"
  shows "distinct order \<and> set order = set nodes
     \<and> (\<forall>i<length order. \<forall>k\<in>set (Inputs (h (order ! i))).
            \<exists>j<i. k \<in> set (Outputs (h (order ! j))))
     \<and> (\<forall>i<length order. \<forall>b. (order ! i, b) \<in> dependsOn h nodes \<longrightarrow> (\<exists>j<i. order ! j = b))"
  using Resolve_order[OF assms] .

theorem resolve_topological_order_witness:
  "Resolve exRuntime ((!) exNodes) [0, 1, 2] = Some (Inr [2, 1, 0])
   \<and> distinct [2, 1, 0 :: nat] \<and> set [2, 1, 0 :: nat] = set [0, 1, 2]
   \<and> (\<exists>j<2. tDatabase \<in> set (Outputs (exNodes ! ([2, 1, 0] ! j))))"
proof -
  have r: "Resolve exRuntime ((!) exNodes) [0, 1, 2] = Some (Inr [2, 1, 0])"
    by (rule ex_resolve)
  note t = resolve_topological_order[OF r]
  have k: "tDatabase \<in> set (Inputs (exNodes ! ([2, 1, 0 :: nat] ! 2)))"
    by (simp add: exNodes_def exServer_def)
  have "2 < length [2, 1, 0 :: nat]" by simp
  with t k have "\<exists>j<2. tDatabase \<in> set (Outputs (exNodes ! ([2, 1, 0] ! j)))" by blast
  then show ?thesis using r t by blast
qed

text \<open>
  C2.  The claim is that a non-nil error in a fallible return slot ends \<open>Run\<close> with
  exactly that error.  \<open>NewNode\<close> marks as fallible every result whose type implements
  \<open>error\<close>, also a struct type; \<open>execute\<close> calls \<open>IsNil\<close> on such a slot
  without the check of the kind that it makes for the outputs, and \<open>IsNil\<close> panics on
  a struct.  For a constructor \<open>func() MyErr\<close>, registered alone, \<open>Run\<close> invokes
  it and then panics; the error value \<open>boom\<close> that the slot holds is not returned.
\<close>

theorem run_struct_error_panics:
  "Add exRuntime tInject exEmpty [argNewMyErr] = Inr exStructErr
   \<and> Run exRuntime exEnv (exStructErr, exWorld) =
       Some (Some (RuntimePanic ''reflect: call of IsNil''), exStructErr,
             exWorld\<lparr>invoked := [GoFunc 4]\<rparr>)"
  by (simp add: exStructErr_def exb_defs ex_defs boot_simps eval_simps)

text \<open>
  C3 (as amended).  \<open>Resolve\<close> fails with DuplicateProvider exactly when some output
  key is declared a second time, by another node or by the same node again.  The error is
  that of the first slot, in registration order of the nodes and declaration order of
  their outputs, whose key was declared before: it names that key, the label of the node
  that declared it earlier and the label of the node declaring it again.  Two different
  nodes with a common output key always make \<open>Resolve\<close> fail in this way,
  whatever the registration order; when nothing clashes before the later of the two and
  the common key is its first output, the error names exactly these two nodes, the
  earlier one first.  \<open>Run\<close> returns the error of \<open>Resolve\<close> as it is,
  with the container and the world unchanged.
\<close>

theorem resolve_duplicate_provider:
  "(\<not> distinct (allOutputs h nodes) \<longrightarrow>
      (\<exists>i j k a b. i < j \<and> j < length (outputSlots h nodes)
         \<and> outputSlots h nodes ! i = (k, a) \<and> outputSlots h nodes ! j = (k, b)
         \<and> distinct (take j (allOutputs h nodes))
         \<and> Resolve rt h nodes =
             Some (Inl (DuplicateProvider k (nodeLabel rt (h a)) (nodeLabel rt (h b))))))
   \<and> (distinct (allOutputs h nodes) \<longrightarrow>
         (\<forall>k l1 l2. Resolve rt h nodes \<noteq> Some (Inl (DuplicateProvider k l1 l2))))
   \<and> (\<forall>a b k. a \<in> set nodes \<and> b \<in> set nodes \<and> a \<noteq> b
         \<and> k \<in> set (Outputs (h a)) \<and> k \<in> set (Outputs (h b)) \<longrightarrow>
         \<not> distinct (allOutputs h nodes)
         \<and> (\<exists>k' l1 l2. Resolve rt h nodes = Some (Inl (DuplicateProvider k' l1 l2))))
   \<and> (\<forall>pre a mid b post k ks. nodes = pre @ a # mid @ b # post
         \<and> distinct (allOutputs h (pre @ a # mid))
         \<and> k \<in> set (Outputs (h a)) \<and> Outputs (h b) = k # ks \<longrightarrow>
         Resolve rt h nodes =
           Some (Inl (DuplicateProvider k (nodeLabel rt (h a)) (nodeLabel rt (h b)))))
   \<and> (\<forall>c e w. err c = None
         \<and> Resolve rt (\<lambda>i. providers c ! i) [0..<length (providers c)] = Some (Inl e)
         \<longrightarrow> Run rt env (c, w) = Some (Some (DagError e), c, w))"
proof (intro conjI allI impI)
  assume "\<not> distinct (allOutputs h nodes)"
  from Resolve_first_clash[OF this, of rt]
  show "\<exists>i j k a b. i < j \<and> j < length (outputSlots h nodes)
         \<and> outputSlots h nodes ! i = (k, a) \<and> outputSlots h nodes ! j = (k, b)
         \<and> distinct (take j (allOutputs h nodes))
         \<and> Resolve rt h nodes =
             Some (Inl (DuplicateProvider k (nodeLabel rt (h a)) (nodeLabel rt (h b))))" .
next
  fix k l1 l2
  assume "distinct (allOutputs h nodes)"
  then show "Resolve rt h nodes \<noteq> Some (Inl (DuplicateProvider k l1 l2))"
    by (rule Resolve_no_dup)
next
  fix a b k
  assume "a \<in> set nodes \<and> b \<in> set nodes \<and> a \<noteq> b
         \<and> k \<in> set (Outputs (h a)) \<and> k \<in> set (Outputs (h b))"
  then show "\<not> distinct (allOutputs h nodes)"
    using shared_output_not_distinct[of a nodes b k h] by blast
next
  fix a b k
  assume "a \<in> set nodes \<and> b \<in> set nodes \<and> a \<noteq> b
         \<and> k \<in> set (Outputs (h a)) \<and> k \<in> set (Outputs (h b))"
  then have nd: "\<not> distinct (allOutputs h nodes)"
    using shared_output_not_distinct[of a nodes b k h] by blast
  from Resolve_first_clash[OF nd, of rt]
  show "\<exists>k' l1 l2. Resolve rt h nodes = Some (Inl (DuplicateProvider k' l1 l2))" by blast
next
  fix pre a mid b post k ks
  assume "nodes = pre @ a # mid @ b # post
         \<and> distinct (allOutputs h (pre @ a # mid))
         \<and> k \<in> set (Outputs (h a)) \<and> Outputs (h b) = k # ks"
  then show "Resolve rt h nodes =
           Some (Inl (DuplicateProvider k (nodeLabel rt (h a)) (nodeLabel rt (h b))))"
    using Resolve_clash_at[of nodes pre a mid b post h k ks rt] by blast
next
  fix c :: "'c Bootstrap" and e and w :: "('c, 'd) world"
  assume "err c = None
         \<and> Resolve rt (\<lambda>i. providers c ! i) [0..<length (providers c)] = Some (Inl e)"
  then show "Run rt env (c, w) = Some (Some (DagError e), c, w)"
    using Run_resolve_error by blast
qed

theorem resolve_duplicate_provider_witness:
  "\<not> distinct (allOutputs ((!) exDup) [0, 1])
   \<and> outputSlots ((!) exDup) [0, 1] = [(tConfig, 0), (tConfig, 1)]
   \<and> Resolve exRuntime ((!) exDup) [0, 1] =
       Some (Inl (DuplicateProvider tConfig ''main.NewConfig'' ''main.NewDatabase''))
   \<and> Resolve exRuntime ((!) exDup) [1, 0] =
       Some (Inl (DuplicateProvider tConfig ''main.NewDatabase'' ''main.NewConfig''))
   \<and> Run exRuntime exEnv (exDupBoot, exWorld) =
       Some (Some (DagError (DuplicateProvider tConfig ''main.NewConfig'' ''main.NewDatabase'')),
             exDupBoot, exWorld)"
proof -
  note inst = resolve_duplicate_provider[of "(!) exDup" "[0, 1]" exRuntime exEnv]
  have nd: "\<not> distinct (allOutputs ((!) exDup) [0, 1])"
    by (simp add: allOutputs_def ex_defs ex2_defs)
  have sl: "outputSlots ((!) exDup) [0, 1] = [(tConfig, 0), (tConfig, 1)]"
    by (simp add: outputSlots_def ex_defs ex2_defs)
  have l0: "nodeLabel exRuntime (exDup ! 0) = ''main.NewConfig''"
    and l1: "nodeLabel exRuntime (exDup ! 1) = ''main.NewDatabase''"
    by (simp_all add: nodeLabel_def ex_defs ex2_defs)
  from inst nd obtain i j k a b where
    x: "i < j" "j < length (outputSlots ((!) exDup) [0, 1])"
    "outputSlots ((!) exDup) [0, 1] ! i = (k, a)" "outputSlots ((!) exDup) [0, 1] ! j = (k, b)"
    "Resolve exRuntime ((!) exDup) [0, 1] =
       Some (Inl (DuplicateProvider k (nodeLabel exRuntime (exDup ! a))
                                      (nodeLabel exRuntime (exDup ! b))))"
    by blast
  have ij: "j = 1" "i = 0" using x(1,2) sl by auto
  have "k = tConfig" "a = 0" "b = 1" using x(3,4) sl ij by auto
  then have r: "Resolve exRuntime ((!) exDup) [0, 1] =
       Some (Inl (DuplicateProvider tConfig ''main.NewConfig'' ''main.NewDatabase''))"
    using x(5) l0 l1 by simp
  have r': "Resolve exRuntime ((!) exDup) [1, 0] =
       Some (Inl (DuplicateProvider tConfig ''main.NewDatabase'' ''main.NewConfig''))"
    using Resolve_clash_at[of "[1, 0]" "[]" 1 "[]" 0 "[]" "(!) exDup" tConfig "[]" exRuntime] l0 l1
    by (simp add: allOutputs_def ex_defs ex2_defs)
  have e: "err exDupBoot = None" by (simp add: exDupBoot_def exEmpty_def)
  have p: "Resolve exRuntime ((!) (providers exDupBoot)) [0..<length (providers exDupBoot)] =
       Some (Inl (DuplicateProvider tConfig ''main.NewConfig'' ''main.NewDatabase''))"
    using r by (simp add: exDupBoot_def exEmpty_def exDup_def upt2)
  from inst e p have "Run exRuntime exEnv (exDupBoot, exWorld) =
       Some (Some (DagError (DuplicateProvider tConfig ''main.NewConfig'' ''main.NewDatabase'')),
             exDupBoot, exWorld)"
    by blast
  then show ?thesis using nd sl r r' by blast
qed

text \<open>
  C3 as stated does not hold: a single node that declares the same output key twice makes
  \<open>Resolve\<close> fail with DuplicateProvider, naming that node twice, although no key
  maps to a different node.
\<close>

theorem resolve_duplicate_provider_counterexample:
  "length exTwice = 1 \<and> Outputs (exTwice ! 0) = [tConfig, tConfig]
   \<and> Resolve exRuntime ((!) exTwice) [0] =
       Some (Inl (DuplicateProvider tConfig ''main.NewConfig'' ''main.NewConfig''))"
  using ex_twice by (simp add: exTwice_def)




text \<open>
  C5.  \<open>Cleanup\<close> cancels the context and calls the release action of every entry
  of the cleanup list exactly once, from the last entry appended to the first: call
  number \<open>i\<close> is made on entry \<open>i\<close> of the reversed list, in the external
  state that the calls before it left, whatever they returned.  The log of release
  actions grows by exactly these calls with their results, and the external state is
  the one the last call left.  The result is \<open>nil\<close> when no call failed, and
  otherwise the aggregate of all failures, in the order of the calls.
\<close>

theorem cleanup_runs_all_in_reverse:
  "\<exists>log. Cleanup env (b, w) =
       (if failures log = [] then None else Some (CleanupErrors (failures log)), b,
        w\<lparr>cancelled := True, ext := extAfter env (rev (cleanups b)) (ext w),
          released := released w @ log\<rparr>)
     \<and> length log = length (cleanups b)
     \<and> (\<forall>i<length (cleanups b).
           log ! i = (rev (cleanups b) ! i,
                      fst (CallCleanup env (rev (cleanups b) ! i)
                             (extAfter env (take i (rev (cleanups b))) (ext w)))))"
proof (intro exI[of _ "releaseLog env (rev (cleanups b)) (ext w)"] conjI allI impI)
  show "Cleanup env (b, w) =
       (if failures (releaseLog env (rev (cleanups b)) (ext w)) = [] then None
        else Some (CleanupErrors (failures (releaseLog env (rev (cleanups b)) (ext w)))), b,
        w\<lparr>cancelled := True, ext := extAfter env (rev (cleanups b)) (ext w),
          released := released w @ releaseLog env (rev (cleanups b)) (ext w)\<rparr>)"
    by (simp add: Cleanup_def runCleanups_exact)
next
  show "length (releaseLog env (rev (cleanups b)) (ext w)) = length (cleanups b)" by simp
next
  fix i assume "i < length (cleanups b)"
  then show "releaseLog env (rev (cleanups b)) (ext w) ! i
      = (rev (cleanups b) ! i,
         fst (CallCleanup env (rev (cleanups b) ! i)
                (extAfter env (take i (rev (cleanups b))) (ext w))))"
    by (simp add: releaseLog_nth)
qed

theorem cleanup_runs_all_in_reverse_witness:
  "Cleanup exEnvCount (exCleaners, exWorldCount) =
     (Some (CleanupErrors [''disk full'']), exCleaners,
      exWorldCount\<lparr>cancelled := True, ext := 2,
        released := [(vCleaner2, None), (vCleaner1, Some ''disk full'')]\<rparr>)"
proof -
  from cleanup_runs_all_in_reverse[of exEnvCount exCleaners exWorldCount]
  obtain log where l: "Cleanup exEnvCount (exCleaners, exWorldCount) =
       (if failures log = [] then None else Some (CleanupErrors (failures log)), exCleaners,
        exWorldCount\<lparr>cancelled := True,
          ext := extAfter exEnvCount (rev (cleanups exCleaners)) (ext exWorldCount),
          released := released exWorldCount @ log\<rparr>)"
    "length log = length (cleanups exCleaners)"
    "\<forall>i<length (cleanups exCleaners).
           log ! i = (rev (cleanups exCleaners) ! i,
                      fst (CallCleanup exEnvCount (rev (cleanups exCleaners) ! i)
                             (extAfter exEnvCount (take i (rev (cleanups exCleaners)))
                                (ext exWorldCount))))"
    by blast
  have n: "length log = 2" using l(2) by (simp add: exCleaners_def)
  have "log ! 0 = (vCleaner2, None)" "log ! 1 = (vCleaner1, Some ''disk full'')"
    using l(3) by (simp_all add: exCleaners_def exEnvCount_def extAfter_def vCleaner1_def
        vCleaner2_def)
  then have "log = [(vCleaner2, None), (vCleaner1, Some ''disk full'')]"
    using list2_nth[OF n] by simp
  then show ?thesis using l(1)
    by (simp add: exCleaners_def exEnvCount_def extAfter_def exWorldCount_def)
qed

text \<open>
  C6 (as amended).  When no output key is declared twice and some node declares an input
  key that no node of the list produces, \<open>Resolve\<close> fails with a MissingDependency
  error; it names the first such key, in registration order of the nodes and declaration
  order of their inputs, and the label of the node that declares it.  And whenever \<open>Resolve\<close> fails, for whatever reason, \<open>Run\<close> returns that error
  with the container and the world as they were: no constructor is invoked, the value
  cache and the cleanup list are unchanged.
\<close>

theorem missing_dependency_and_no_side_effects:
  assumes "distinct (allOutputs h nodes)"
    and "n \<in> set nodes" and "k \<in> set (Inputs (h n))" and "k \<notin> set (allOutputs h nodes)"
  shows "(\<exists>n' k'. find (\<lambda>(n, k). k \<notin> set (allOutputs h nodes)) (inputSlots h nodes) = Some (n', k')
            \<and> Resolve rt h nodes = Some (Inl (MissingDependency k' (nodeLabel rt (h n'))))
            \<and> n' \<in> set nodes \<and> k' \<in> set (Inputs (h n')) \<and> k' \<notin> set (allOutputs h nodes))
     \<and> (\<forall>b e w. err b = None
            \<and> Resolve rt (\<lambda>i. providers b ! i) [0..<length (providers b)] = Some (Inl e)
          \<longrightarrow> Run rt env (b, w) = Some (Some (DagError e), b, w))"
proof -
  have "(n, k) \<in> set (inputSlots h nodes)" using assms(2,3) by (auto simp: inputSlots_def)
  then have "find (\<lambda>(n, k). k \<notin> set (allOutputs h nodes)) (inputSlots h nodes) \<noteq> None"
    using assms(4) by (auto simp: find_None_iff)
  then obtain n' k' where
    f: "find (\<lambda>(n, k). k \<notin> set (allOutputs h nodes)) (inputSlots h nodes) = Some (n', k')"
    by auto
  then have "(n', k') \<in> set (inputSlots h nodes)" "k' \<notin> set (allOutputs h nodes)"
    by (auto simp: find_Some_iff in_set_conv_nth)
  then have "n' \<in> set nodes" "k' \<in> set (Inputs (h n'))" "k' \<notin> set (allOutputs h nodes)"
    by (auto simp: inputSlots_def)
  then show ?thesis using f Resolve_missing[OF assms(1) f] Run_resolve_error by blast
qed

theorem missing_dependency_and_no_side_effects_witness:
  "distinct (allOutputs ((!) exMissing) [0])
   \<and> 0 \<in> set [0 :: nat] \<and> tConfig \<in> set (Inputs (exMissing ! 0))
   \<and> tConfig \<notin> set (allOutputs ((!) exMissing) [0])
   \<and> Resolve exRuntime ((!) exMissing) [0] = Some (Inl (MissingDependency tConfig ''main.go:42''))
   \<and> Run exRuntime exEnv (exEmpty\<lparr>providers := exMissing\<rparr>, exWorld) =
       Some (Some (DagError (MissingDependency tConfig ''main.go:42'')),
             exEmpty\<lparr>providers := exMissing\<rparr>, exWorld)"
proof -
  have d: "distinct (allOutputs ((!) exMissing) [0])" by (simp add: exMissing_def)
  have n: "0 \<in> set [0 :: nat]" by simp
  have k: "tConfig \<in> set (Inputs (exMissing ! 0))" by (simp add: exMissing_def)
  have m: "tConfig \<notin> set (allOutputs ((!) exMissing) [0])" by (simp add: exMissing_def)
  note t = missing_dependency_and_no_side_effects[OF d n k m, of exRuntime exEnv]
  have e: "err (exEmpty\<lparr>providers := exMissing\<rparr>) = None" by (simp add: exEmpty_def)
  have l: "[0..<length (providers (exEmpty\<lparr>providers := exMissing\<rparr>))] = [0]"
    by (simp add: exMissing_def)
  have r: "Resolve exRuntime (\<lambda>i. providers (exEmpty\<lparr>providers := exMissing\<rparr>) ! i)
             [0..<length (providers (exEmpty\<lparr>providers := exMissing\<rparr>))]
           = Some (Inl (MissingDependency tConfig ''main.go:42''))"
    unfolding l using ex_missing by simp
  from t e r have "Run exRuntime exEnv (exEmpty\<lparr>providers := exMissing\<rparr>, exWorld) =
       Some (Some (DagError (MissingDependency tConfig ''main.go:42'')),
             exEmpty\<lparr>providers := exMissing\<rparr>, exWorld)" by blast
  then show ?thesis using d k m ex_missing by simp
qed

text \<open>
  C6 as stated does not hold: the duplicate-provider check comes first, so a list in
  which a node needs a key nobody produces, and two nodes produce the same key, fails with
  DuplicateProvider.
\<close>

theorem missing_dependency_and_no_side_effects_counterexample:
  "tServer \<in> set (Inputs (exDupMissing ! 1))
   \<and> tServer \<notin> set (allOutputs ((!) exDupMissing) [0, 1])
   \<and> Resolve exRuntime ((!) exDupMissing) [0, 1] =
       Some (Inl (DuplicateProvider tConfig ''main.NewConfig'' ''main.NewDatabase''))"
  using ex_dup_missing by (simp add: ex_defs exDupMissing_def)

text \<open>
  C7.  When \<open>add\<close> fails on an argument of an \<open>Add\<close> call made while no error
  is recorded, the error is one of the three registration errors (nil target, neither
  function nor pointer, prohibited Inject embedding), \<open>Add\<close> records it and registers
  nothing more, not even the remaining arguments of the same call.  From then on every
  \<open>Add\<close> returns the container unchanged, and \<open>Run\<close> returns the recorded error
  with the container and the world unchanged: nothing is resolved or executed.
\<close>

theorem first_add_error_is_latched:
  assumes "err b0 = None" and "add rt injT b0 c = (Some e, b1)" and "c \<noteq> NilInterface"
  shows "Add rt injT b0 (c # rest) = Inr (b0\<lparr>err := Some e\<rparr>)
     \<and> (e = ArgumentNil \<or> e = ArgumentNotFuncOrPtr \<or> (\<exists>s t. e = ProhibitedInject s t))
     \<and> (\<forall>cs. Add rt injT (b0\<lparr>err := Some e\<rparr>) cs = Inr (b0\<lparr>err := Some e\<rparr>))
     \<and> (\<forall>w. Run rt env (b0\<lparr>err := Some e\<rparr>, w) = Some (Some e, b0\<lparr>err := Some e\<rparr>, w))"
proof -
  have b1: "b1 = b0" using add_error_unchanged[OF assms(2)] .
  note k = add_error_kinds[OF assms(2,3)]
  then have "Add rt injT b0 (c # rest) = Inr (b0\<lparr>err := Some e\<rparr>)"
    using assms(1,2) b1 by (cases e) (auto simp: Add_def)
  then show ?thesis using k by (simp add: Add_def Run_def)
qed

theorem first_add_error_is_latched_witness:
  "err exEmpty = None
   \<and> add exRuntime tInject exEmpty argInvalid = (Some ArgumentNotFuncOrPtr, exEmpty)
   \<and> Add exRuntime tInject exEmpty [argInvalid, argNewConfig]
       = Inr (exEmpty\<lparr>err := Some ArgumentNotFuncOrPtr\<rparr>)
   \<and> Add exRuntime tInject (exEmpty\<lparr>err := Some ArgumentNotFuncOrPtr\<rparr>) [argNewConfig]
       = Inr (exEmpty\<lparr>err := Some ArgumentNotFuncOrPtr\<rparr>)
   \<and> Run exRuntime exEnv (exEmpty\<lparr>err := Some ArgumentNotFuncOrPtr\<rparr>, exWorld)
       = Some (Some ArgumentNotFuncOrPtr, exEmpty\<lparr>err := Some ArgumentNotFuncOrPtr\<rparr>, exWorld)"
proof -
  have e: "err exEmpty = None" by (simp add: exEmpty_def)
  have a: "add exRuntime tInject exEmpty argInvalid = (Some ArgumentNotFuncOrPtr, exEmpty)"
    by (simp add: argInvalid_def)
  have n: "argInvalid \<noteq> NilInterface" by (simp add: argInvalid_def)
  from first_add_error_is_latched[OF e a n, of "[argNewConfig]" exEnv] e a
  show ?thesis by blast
qed




text \<open>
  C10.  When \<open>execute\<close> ends with the error of a constructor, the container is
  exactly as before the call: none of the node's results is in the value cache, nothing
  was appended to the cleanup list.  The callable was invoked, with the cached arguments,
  and the error returned is the value of one of its error slots, which is not nil.
\<close>

theorem failing_node_stores_nothing:
  assumes "execute env p (b, w) = (Some (ConstructorError e), b', w')"
  shows "b' = b \<and> vals b' = vals b \<and> cleanups b' = cleanups b
     \<and> (\<exists>args. gatherArgs (vals b) (Inputs p) = Inr args
          \<and> invoked w' = invoked w @ [Fn p]
          \<and> (\<exists>idx\<in>set (ErrorIndices p).
                 idx < length (fst (Call env (Fn p) args (ext w)))
               \<and> \<not> vIsNil (fst (Call env (Fn p) args (ext w)) ! idx)
               \<and> e = vError (fst (Call env (Fn p) args (ext w)) ! idx)))"
proof -
  have b: "b' = b" using execute_error_keeps_state[OF assms] .
  from assms obtain args where a: "gatherArgs (vals b) (Inputs p) = Inr args"
    by (cases "gatherArgs (vals b) (Inputs p)") (auto simp: execute_def dest: gatherArgs_Inl)
  from assms a obtain results x where f: "FnCall env (Fn p) args (ext w) = Inr (results, x)"
    by (cases "FnCall env (Fn p) args (ext w)") (auto simp: execute_def)
  then have c: "Call env (Fn p) args (ext w) = (results, x)" using FnCall_Inr by metis
  from assms a f have ce: "checkErrorReturns results (ErrorIndices p) = Some (ConstructorError e)"
    and w: "w' = w\<lparr>ext := x, invoked := invoked w @ [Fn p]\<rparr>"
    by (auto simp: execute_def Let_def split: option.splits)
  from checkErrorReturns_constructor[OF ce] c a w b show ?thesis by auto
qed

theorem failing_node_stores_nothing_witness:
  "execute exEnv exDatabase (exBoot\<lparr>vals := [tConfig \<mapsto> vConfig]\<rparr>, exWorld)
     = (Some (ConstructorError ''connection refused''),
        exBoot\<lparr>vals := [tConfig \<mapsto> vConfig]\<rparr>, exWorld\<lparr>invoked := [GoFunc 2]\<rparr>)
   \<and> vals (exBoot\<lparr>vals := [tConfig \<mapsto> vConfig]\<rparr>) tDatabase = None
   \<and> cleanups (exBoot\<lparr>vals := [tConfig \<mapsto> vConfig]\<rparr>) = []"
proof -
  have x: "execute exEnv exDatabase (exBoot\<lparr>vals := [tConfig \<mapsto> vConfig]\<rparr>, exWorld)
     = (Some (ConstructorError ''connection refused''),
        exBoot\<lparr>vals := [tConfig \<mapsto> vConfig]\<rparr>, exWorld\<lparr>invoked := [GoFunc 2]\<rparr>)"
    by (simp add: exb_defs ex_defs boot_simps)
  from failing_node_stores_nothing[OF x] x show ?thesis
    by (simp add: exb_defs ex_defs)
qed

end
